theory Spec2Isabelle
  imports Complex_Main "HOL-Library.Char_ord" "HOL-Library.List_Lexorder"
    "HOL-Library.Product_Lexorder" "HOL-Library.Multiset"
begin

section \<open>Strings and characters\<close>

text \<open>
  A Python \<open>str\<close> is modelled as a HOL \<open>string\<close>, one \<open>char\<close> for each code point.
  HOL characters are the code points U+0000 to U+00FF, so the development covers the
  texts over that range. The classification of characters follows CPython's Unicode
  tables restricted to it: \<open>str.strip\<close> and the regular-expression class \<open>\s\<close> use
  \<open>Py_UNICODE_ISSPACE\<close>, the class \<open>\w\<close> is \<open>Py_UNICODE_ISALNUM\<close> or the underscore, and
  \<open>str.lower\<close> maps every uppercase letter of the range to a single letter of the range.
\<close>

definition is_space :: "char \<Rightarrow> bool" where
  "is_space c =
     (let n = (of_char c :: nat)
      in (9 \<le> n \<and> n \<le> 13) \<or> (28 \<le> n \<and> n \<le> 32) \<or> n = 133 \<or> n = 160)"

definition is_upper :: "char \<Rightarrow> bool" where
  "is_upper c =
     (let n = (of_char c :: nat)
      in (65 \<le> n \<and> n \<le> 90) \<or> (192 \<le> n \<and> n \<le> 214) \<or> (216 \<le> n \<and> n \<le> 222))"

definition is_alpha :: "char \<Rightarrow> bool" where
  "is_alpha c =
     (let n = (of_char c :: nat)
      in (65 \<le> n \<and> n \<le> 90) \<or> (97 \<le> n \<and> n \<le> 122) \<or> n = 170 \<or> n = 181 \<or> n = 186
         \<or> (192 \<le> n \<and> n \<le> 214) \<or> (216 \<le> n \<and> n \<le> 246) \<or> (248 \<le> n \<and> n \<le> 255))"

definition is_numeric :: "char \<Rightarrow> bool" where
  "is_numeric c =
     (let n = (of_char c :: nat)
      in (48 \<le> n \<and> n \<le> 57) \<or> n = 178 \<or> n = 179 \<or> n = 185 \<or> (188 \<le> n \<and> n \<le> 190))"

definition is_alnum :: "char \<Rightarrow> bool" where
  "is_alnum c = (is_alpha c \<or> is_numeric c)"

text \<open>The class \<open>\w\<close> of the \<open>re\<close> module: alphanumeric, or the underscore.\<close>

definition is_word :: "char \<Rightarrow> bool" where
  "is_word c = (is_alnum c \<or> c = CHR ''_'')"

definition lower_char :: "char \<Rightarrow> char" where
  "lower_char c = (if is_upper c then char_of (of_char c + (32 :: nat)) else c)"

text \<open>\<open>str.lower()\<close>\<close>

definition py_lower :: "string \<Rightarrow> string" where
  "py_lower s = map lower_char s"

text \<open>\<open>str.strip()\<close> without argument: whitespace is removed at both ends.\<close>

definition py_strip :: "string \<Rightarrow> string" where
  "py_strip s = rev (dropWhile is_space (rev (dropWhile is_space s)))"

text \<open>
  The test \<open>needle in hay\<close> on strings: \<open>needle\<close> occurs in \<open>hay\<close> as a contiguous
  substring. The empty string occurs in every string.
\<close>

fun starts_with :: "string \<Rightarrow> string \<Rightarrow> bool" where
  "starts_with [] hay = True"
| "starts_with (c # cs) [] = False"
| "starts_with (c # cs) (d # ds) = (c = d \<and> starts_with cs ds)"

fun str_in :: "string \<Rightarrow> string \<Rightarrow> bool" where
  "str_in needle [] = (needle = [])"
| "str_in needle (d # ds) = (starts_with needle (d # ds) \<or> str_in needle ds)"

section \<open>Text normalizer\<close>

text \<open>\<open>re.sub(r"[^\w\s]", "", text)\<close>: every character outside \<open>\w\<close> and \<open>\s\<close> is deleted.\<close>

definition remove_punctuation :: "string \<Rightarrow> string" where
  "remove_punctuation s = filter (\<lambda>c. is_word c \<or> is_space c) s"

text \<open>
  \<open>re.sub(r"\s+", " ", text)\<close>: every maximal run of whitespace is replaced by one
  space character.
\<close>

function collapse_whitespace :: "string \<Rightarrow> string" where
  "collapse_whitespace [] = []"
| "collapse_whitespace (c # cs) =
     (if is_space c then CHR '' '' # collapse_whitespace (dropWhile is_space cs)
      else c # collapse_whitespace cs)"
  by pat_completeness auto
termination
  by (relation "measure length") (auto simp: less_Suc_eq_le length_dropWhile_le)

definition normalize_text :: "string \<Rightarrow> string" where
  "normalize_text text =
     (let text1 = py_strip (py_lower text);
          text2 = remove_punctuation text1;
          text3 = collapse_whitespace text2
      in text3)"

section \<open>Sequence matching\<close>

text \<open>
  The fuzzy matcher calls \<open>difflib.get_close_matches\<close> and
  \<open>difflib.SequenceMatcher(None, a, b).ratio()\<close> of the Python standard library. They
  are modelled from CPython's \<open>difflib.py\<close>, with the names of that module. Indices are
  natural numbers, and every subtraction is written so that it does not truncate.

  A similarity score is a Python float in the source: the quotient \<open>2.0 * matches / length\<close>
  of two small integers, rounded once. Here it is the exact rational \<open>2 * matches / length\<close>,
  and a cutoff or threshold is the rational that its literal denotes (\<open>0.6\<close> is \<open>6/10\<close>).
  Rounding is monotone and sends equal numbers to equal floats, so the comparisons of
  the source agree with the comparisons of these rationals as long as two different
  values are further apart than the precision of a float, which holds for all strings
  that fit into memory.
\<close>

type_synonym block = "nat \<times> nat \<times> nat"

text \<open>
  \<open>SequenceMatcher.__chain_b\<close>: \<open>b2j\<close> maps every character of \<open>b\<close> to the increasing list
  of the indices where it occurs. No junk predicate is given (\<open>isjunk\<close> is \<open>None\<close>), so
  the junk set is empty; with \<open>autojunk\<close> left on, a character that occurs more than
  \<open>n // 100 + 1\<close> times in a \<open>b\<close> of \<open>n \<ge> 200\<close> characters is popular and loses its entry.
\<close>

fun chain_b_index :: "nat \<Rightarrow> string \<Rightarrow> (char \<Rightarrow> nat list) \<Rightarrow> (char \<Rightarrow> nat list)" where
  "chain_b_index i [] b2j = b2j"
| "chain_b_index i (elt # rest) b2j = chain_b_index (Suc i) rest (b2j(elt := b2j elt @ [i]))"

definition chain_b :: "string \<Rightarrow> (char \<Rightarrow> nat list)" where
  "chain_b b =
     (let b2j = chain_b_index 0 b (\<lambda>elt. []);
          n = length b
      in if n \<ge> 200
         then (let ntest = n div 100 + 1
               in (\<lambda>elt. if length (b2j elt) > ntest then [] else b2j elt))
         else b2j)"

definition isbjunk :: "char \<Rightarrow> bool" where
  "isbjunk elt = False"

text \<open>
  \<open>find_longest_match\<close>, the inner loop \<open>for j in b2j.get(a[i], nothing)\<close>. The row
  \<open>j2len\<close> of the previous \<open>i\<close> and the row \<open>newj2len\<close> under construction are
  dictionaries read with default \<open>0\<close>; they are functions here, \<open>0\<close> where the dictionary
  has no entry. The index \<open>j - 1\<close> is \<open>-1\<close> for \<open>j = 0\<close>, which is never a key.
\<close>

fun match_row ::
  "nat \<Rightarrow> nat \<Rightarrow> nat \<Rightarrow> (nat \<Rightarrow> nat) \<Rightarrow> nat list \<Rightarrow> (nat \<Rightarrow> nat) \<times> block \<Rightarrow> (nat \<Rightarrow> nat) \<times> block"
where
  "match_row blo bhi i j2len [] st = st"
| "match_row blo bhi i j2len (j # js) (newj2len, (besti, bestj, bestsize)) =
     (if j < blo then match_row blo bhi i j2len js (newj2len, (besti, bestj, bestsize))
      else if j \<ge> bhi then (newj2len, (besti, bestj, bestsize))
      else
        (let k = (if j = 0 then 0 else j2len (j - 1)) + 1
         in match_row blo bhi i j2len js
              (newj2len(j := k),
               if k > bestsize then (i + 1 - k, j + 1 - k, k) else (besti, bestj, bestsize))))"

text \<open>The outer loop \<open>for i in range(alo, ahi)\<close>.\<close>

fun match_rows ::
  "string \<Rightarrow> (char \<Rightarrow> nat list) \<Rightarrow> nat \<Rightarrow> nat \<Rightarrow> nat list \<Rightarrow> (nat \<Rightarrow> nat) \<times> block \<Rightarrow> block"
where
  "match_rows a b2j blo bhi [] (j2len, best) = best"
| "match_rows a b2j blo bhi (i # rows) (j2len, best) =
     match_rows a b2j blo bhi rows
       (match_row blo bhi i j2len (b2j (a ! i)) ((\<lambda>j. 0), best))"

text \<open>
  The four \<open>while\<close> loops that extend the best match at its two ends, first over
  characters that are not junk, then over junk; \<open>ok\<close> is the test on \<open>b[...]\<close>.
\<close>

function extend_back ::
  "string \<Rightarrow> string \<Rightarrow> (char \<Rightarrow> bool) \<Rightarrow> nat \<Rightarrow> nat \<Rightarrow> block \<Rightarrow> block"
where
  "extend_back a b ok alo blo (besti, bestj, bestsize) =
     (if besti > alo \<and> bestj > blo \<and> ok (b ! (bestj - 1)) \<and> a ! (besti - 1) = b ! (bestj - 1)
      then extend_back a b ok alo blo (besti - 1, bestj - 1, bestsize + 1)
      else (besti, bestj, bestsize))"
  by pat_completeness auto
termination
  by (relation "measure (\<lambda>(a, b, ok, alo, blo, besti, bestj, bestsize). besti)") auto

function extend_forward ::
  "string \<Rightarrow> string \<Rightarrow> (char \<Rightarrow> bool) \<Rightarrow> nat \<Rightarrow> nat \<Rightarrow> block \<Rightarrow> block"
where
  "extend_forward a b ok ahi bhi (besti, bestj, bestsize) =
     (if besti + bestsize < ahi \<and> bestj + bestsize < bhi \<and> ok (b ! (bestj + bestsize))
         \<and> a ! (besti + bestsize) = b ! (bestj + bestsize)
      then extend_forward a b ok ahi bhi (besti, bestj, bestsize + 1)
      else (besti, bestj, bestsize))"
  by pat_completeness auto
termination
  by (relation "measure (\<lambda>(a, b, ok, ahi, bhi, besti, bestj, bestsize). ahi - (besti + bestsize))")
    auto

definition find_longest_match ::
  "string \<Rightarrow> string \<Rightarrow> (char \<Rightarrow> nat list) \<Rightarrow> nat \<Rightarrow> nat \<Rightarrow> nat \<Rightarrow> nat \<Rightarrow> block"
where
  "find_longest_match a b b2j alo ahi blo bhi =
     (let best = match_rows a b2j blo bhi [alo..<ahi] ((\<lambda>j. 0), (alo, blo, 0));
          best = extend_back a b (\<lambda>elt. \<not> isbjunk elt) alo blo best;
          best = extend_forward a b (\<lambda>elt. \<not> isbjunk elt) ahi bhi best;
          best = extend_back a b isbjunk alo blo best;
          best = extend_forward a b isbjunk ahi bhi best
      in best)"

declare extend_back.simps [simp del] extend_forward.simps [simp del]

subsection \<open>Bounds of the longest match\<close>

text \<open>
  The block that \<open>find_longest_match\<close> returns lies inside the window it was asked to
  search; an empty block sits at the window's lower corner. The work list of
  \<open>get_matching_blocks\<close> terminates because of this.
\<close>

definition row_ok :: "nat \<Rightarrow> nat \<Rightarrow> nat \<Rightarrow> (nat \<Rightarrow> nat) \<Rightarrow> bool" where
  "row_ok blo bhi m f = (\<forall>j. f j \<noteq> 0 \<longrightarrow> blo \<le> j \<and> j < bhi \<and> f j \<le> m \<and> f j \<le> j + 1 - blo)"

definition best_ok :: "nat \<Rightarrow> nat \<Rightarrow> nat \<Rightarrow> nat \<Rightarrow> block \<Rightarrow> bool" where
  "best_ok alo ahi blo bhi best =
     (case best of (besti, bestj, bestsize) \<Rightarrow>
        alo \<le> besti \<and> blo \<le> bestj
        \<and> (bestsize = 0 \<longrightarrow> besti = alo \<and> bestj = blo)
        \<and> (bestsize \<noteq> 0 \<longrightarrow> besti + bestsize \<le> ahi \<and> bestj + bestsize \<le> bhi))"

lemma match_row_step:
  assumes "\<not> j < blo" and "\<not> bhi \<le> j" and "k = (if j = 0 then 0 else j2len (j - 1)) + 1"
  shows "match_row blo bhi i j2len (j # js) (newj2len, (besti, bestj, bestsize)) =
         match_row blo bhi i j2len js
           (newj2len(j := k),
            if k > bestsize then (i + 1 - k, j + 1 - k, k) else (besti, bestj, bestsize))"
  using assms by (simp add: Let_def)

lemma row_ok_zero: "row_ok blo bhi m (\<lambda>j. 0)"
  by (simp add: row_ok_def)

lemma match_row_ok:
  assumes "alo \<le> i" and "i < ahi" and "row_ok blo bhi (i - alo) j2len"
    and "row_ok blo bhi (i + 1 - alo) newj2len" and "best_ok alo ahi blo bhi best"
    and "match_row blo bhi i j2len js (newj2len, best) = (row, best')"
  shows "row_ok blo bhi (i + 1 - alo) row \<and> best_ok alo ahi blo bhi best'"
  using assms(4-6)
proof (induction js arbitrary: newj2len best)
  case Nil
  then show ?case by simp
next
  case (Cons j js)
  obtain besti bestj bestsize where best: "best = (besti, bestj, bestsize)"
    by (cases best) auto
  show ?case
  proof (cases "j < blo \<or> j \<ge> bhi")
    case True
    with Cons best show ?thesis by (auto split: if_splits)
  next
    case False
    define k where "k = (if j = 0 then 0 else j2len (j - 1)) + 1"
    have k1: "k \<le> i + 1 - alo"
      using assms(1,3) unfolding k_def row_ok_def
      by (cases "j = 0") (auto simp: le_diff_conv Suc_diff_le dest: spec [of _ "j - 1"])
    have k2: "k \<le> j + 1 - blo"
    proof (cases "j = 0 \<or> j2len (j - 1) = 0")
      case True
      with False show ?thesis unfolding k_def by auto
    next
      case F: False
      with assms(3) have "blo \<le> j - 1" "j2len (j - 1) \<le> j - 1 + 1 - blo"
        unfolding row_ok_def by blast+
      with F show ?thesis unfolding k_def by auto
    qed
    have kpos: "0 < k" unfolding k_def by simp
    have row': "row_ok blo bhi (i + 1 - alo) (newj2len(j := k))"
      using Cons.prems(1) False k1 k2 unfolding row_ok_def by auto
    have best': "best_ok alo ahi blo bhi
        (if k > bestsize then (i + 1 - k, j + 1 - k, k) else (besti, bestj, bestsize))"
      using Cons.prems(2) False k1 k2 kpos assms(1,2) unfolding best best_ok_def by auto
    have "match_row blo bhi i j2len js
        (newj2len(j := k), if k > bestsize then (i + 1 - k, j + 1 - k, k) else (besti, bestj, bestsize))
        = (row, best')"
      using Cons.prems(3) False match_row_step [of j blo bhi k j2len i js newj2len besti bestj bestsize]
      unfolding best k_def by simp
    from Cons.IH [OF row' best' this] show ?thesis .
  qed
qed

lemma match_rows_ok:
  assumes "alo \<le> i" and "row_ok blo bhi (i - alo) j2len" and "best_ok alo ahi blo bhi best"
  shows "best_ok alo ahi blo bhi (match_rows a b2j blo bhi [i..<ahi] (j2len, best))"
  using assms
proof (induction "ahi - i" arbitrary: i j2len best)
  case 0
  then show ?case by simp
next
  case (Suc n)
  then have lt: "i < ahi" by simp
  obtain row best' where step:
    "match_row blo bhi i j2len (b2j (a ! i)) ((\<lambda>j. 0), best) = (row, best')"
    by (cases "match_row blo bhi i j2len (b2j (a ! i)) ((\<lambda>j. 0), best)") auto
  have ok: "row_ok blo bhi (i + 1 - alo) row \<and> best_ok alo ahi blo bhi best'"
    by (rule match_row_ok [OF Suc.prems(1) lt Suc.prems(2) row_ok_zero Suc.prems(3) step])
  have "best_ok alo ahi blo bhi (match_rows a b2j blo bhi [Suc i..<ahi] (row, best'))"
  proof (rule Suc.hyps(1))
    show "n = ahi - Suc i" using Suc.hyps(2) by simp
    show "alo \<le> Suc i" using Suc.prems(1) by simp
    show "row_ok blo bhi (Suc i - alo) row" using ok by simp
    show "best_ok alo ahi blo bhi best'" using ok by simp
  qed
  then show ?case using lt step by (simp add: upt_conv_Cons)
qed

lemma extend_back_ok:
  "best_ok alo ahi blo bhi best \<Longrightarrow> best_ok alo ahi blo bhi (extend_back a b ok alo blo best)"
proof (induction a b ok alo blo best rule: extend_back.induct)
  case (1 a b ok alo blo besti bestj bestsize)
  show ?case
  proof (cases "besti > alo \<and> bestj > blo \<and> ok (b ! (bestj - 1)) \<and> a ! (besti - 1) = b ! (bestj - 1)")
    case True
    have "best_ok alo ahi blo bhi (besti - 1, bestj - 1, bestsize + 1)"
      using "1.prems" True unfolding best_ok_def by auto
    with "1.IH" True show ?thesis by (subst extend_back.simps) simp
  next
    case False
    with "1.prems" show ?thesis by (subst extend_back.simps) auto
  qed
qed

lemma extend_forward_ok:
  "best_ok alo ahi blo bhi best \<Longrightarrow> best_ok alo ahi blo bhi (extend_forward a b ok ahi bhi best)"
proof (induction a b ok ahi bhi best rule: extend_forward.induct)
  case (1 a b ok ahi bhi besti bestj bestsize)
  show ?case
  proof (cases "besti + bestsize < ahi \<and> bestj + bestsize < bhi \<and> ok (b ! (bestj + bestsize))
         \<and> a ! (besti + bestsize) = b ! (bestj + bestsize)")
    case True
    have "best_ok alo ahi blo bhi (besti, bestj, bestsize + 1)"
      using "1.prems" True unfolding best_ok_def by auto
    with "1.IH" True show ?thesis by (subst extend_forward.simps) simp
  next
    case False
    with "1.prems" show ?thesis by (subst extend_forward.simps) auto
  qed
qed

lemma find_longest_match_ok:
  "best_ok alo ahi blo bhi (find_longest_match a b b2j alo ahi blo bhi)"
proof -
  have "best_ok alo ahi blo bhi (alo, blo, 0)"
    by (simp add: best_ok_def)
  then have "best_ok alo ahi blo bhi (match_rows a b2j blo bhi [alo..<ahi] ((\<lambda>j. 0), (alo, blo, 0)))"
    by (intro match_rows_ok) (simp_all add: row_ok_zero)
  then show ?thesis
    unfolding find_longest_match_def Let_def
    by (intro extend_forward_ok extend_back_ok)
qed

lemma find_longest_match_bounds:
  assumes "find_longest_match a b b2j alo ahi blo bhi = (i, j, k)"
  shows "alo \<le> i" and "blo \<le> j" and "k \<noteq> 0 \<Longrightarrow> i + k \<le> ahi" and "k \<noteq> 0 \<Longrightarrow> j + k \<le> bhi"
    and "k = 0 \<Longrightarrow> i = alo \<and> j = blo"
  using find_longest_match_ok [of alo ahi blo bhi a b b2j] assms
  by (auto simp: best_ok_def)

subsection \<open>Matching blocks and ratios\<close>

text \<open>
  \<open>get_matching_blocks\<close>: the work list \<open>queue\<close> is a stack, \<open>queue.pop()\<close> takes the
  window pushed last. The head of the HOL list is the top of that stack, so the window
  right of the match, pushed second, stands before the window left of it.
\<close>

type_synonym window = "nat \<times> nat \<times> nat \<times> nat"

definition pushed :: "window \<Rightarrow> block \<Rightarrow> window list" where
  "pushed w x =
     (case w of (alo, ahi, blo, bhi) \<Rightarrow> case x of (i, j, k) \<Rightarrow>
        (if i + k < ahi \<and> j + k < bhi then [(i + k, ahi, j + k, bhi)] else []) @
        (if alo < i \<and> blo < j then [(alo, i, blo, j)] else []))"

definition queue_size :: "window list \<Rightarrow> nat" where
  "queue_size queue = sum_list (map (\<lambda>(alo, ahi, blo, bhi). 2 * (ahi - alo) + 1) queue)"

lemma queue_size_pushed:
  assumes "find_longest_match a b b2j alo ahi blo bhi = (i, j, k)" and "k \<noteq> 0"
  shows "queue_size (pushed (alo, ahi, blo, bhi) (i, j, k)) < 2 * (ahi - alo) + 1"
  using find_longest_match_bounds(1,3) [OF assms(1)] assms(2)
  by (auto simp: queue_size_def pushed_def)

function matching_blocks_loop ::
  "string \<Rightarrow> string \<Rightarrow> (char \<Rightarrow> nat list) \<Rightarrow> window list \<Rightarrow> block list \<Rightarrow> block list"
where
  "matching_blocks_loop a b b2j [] matching_blocks = matching_blocks"
| "matching_blocks_loop a b b2j ((alo, ahi, blo, bhi) # queue) matching_blocks =
     (let x = find_longest_match a b b2j alo ahi blo bhi
      in if snd (snd x) \<noteq> 0
         then matching_blocks_loop a b b2j (pushed (alo, ahi, blo, bhi) x @ queue)
                (matching_blocks @ [x])
         else matching_blocks_loop a b b2j queue matching_blocks)"
  by pat_completeness auto
termination
proof (relation "measure (\<lambda>(a, b, b2j, queue, matching_blocks). queue_size queue)")
  show "wf (measure (\<lambda>(a, b, b2j, queue, matching_blocks). queue_size queue))"
    by simp
next
  fix a b :: string and b2j alo ahi blo bhi and queue :: "window list"
    and matching_blocks :: "block list" and x
  assume x: "x = find_longest_match a b b2j alo ahi blo bhi" and k: "snd (snd x) \<noteq> 0"
  obtain i j k where ijk: "x = (i, j, k)" by (cases x) auto
  have "snd (snd x) = k"
    unfolding ijk by simp
  with k have "k \<noteq> 0"
    by simp
  moreover have "find_longest_match a b b2j alo ahi blo bhi = (i, j, k)"
    using x ijk by (rule trans [OF sym])
  ultimately have "queue_size (pushed (alo, ahi, blo, bhi) (i, j, k)) < 2 * (ahi - alo) + 1"
    by (intro queue_size_pushed)
  then have "queue_size (pushed (alo, ahi, blo, bhi) x) < 2 * (ahi - alo) + 1"
    unfolding ijk .
  then show "((a, b, b2j, pushed (alo, ahi, blo, bhi) x @ queue, matching_blocks @ [x]),
              (a, b, b2j, (alo, ahi, blo, bhi) # queue, matching_blocks))
             \<in> measure (\<lambda>(a, b, b2j, queue, matching_blocks). queue_size queue)"
    by (simp add: queue_size_def)
next
  fix a b :: string and b2j alo ahi blo bhi and queue :: "window list"
    and matching_blocks :: "block list" and x
  show "((a, b, b2j, queue, matching_blocks),
         (a, b, b2j, (alo, ahi, blo, bhi) # queue, matching_blocks))
        \<in> measure (\<lambda>(a, b, b2j, queue, matching_blocks). queue_size queue)"
    by (simp add: queue_size_def)
qed

declare matching_blocks_loop.simps [simp del]

text \<open>
  The loop that merges adjacent blocks after \<open>matching_blocks.sort()\<close>; \<open>(i1, j1, k1)\<close>
  is the block under construction.
\<close>

fun collapse_adjacent :: "block list \<Rightarrow> block \<Rightarrow> block list \<Rightarrow> block list" where
  "collapse_adjacent [] (i1, j1, k1) non_adjacent =
     (if k1 \<noteq> 0 then non_adjacent @ [(i1, j1, k1)] else non_adjacent)"
| "collapse_adjacent ((i2, j2, k2) # rest) (i1, j1, k1) non_adjacent =
     (if i1 + k1 = i2 \<and> j1 + k1 = j2
      then collapse_adjacent rest (i1, j1, k1 + k2) non_adjacent
      else collapse_adjacent rest (i2, j2, k2)
             (if k1 \<noteq> 0 then non_adjacent @ [(i1, j1, k1)] else non_adjacent))"

definition get_matching_blocks :: "string \<Rightarrow> string \<Rightarrow> block list" where
  "get_matching_blocks a b =
     (let la = length a; lb = length b;
          matching_blocks = matching_blocks_loop a b (chain_b b) [(0, la, 0, lb)] [];
          matching_blocks = sort matching_blocks;
          non_adjacent = collapse_adjacent matching_blocks (0, 0, 0) []
      in non_adjacent @ [(la, lb, 0)])"

definition calculate_ratio :: "nat \<Rightarrow> nat \<Rightarrow> rat" where
  "calculate_ratio matches len =
     (if len \<noteq> 0 then 2 * of_nat matches / of_nat len else 1)"

text \<open>\<open>SequenceMatcher(None, a, b).ratio()\<close>\<close>

definition matches_total :: "string \<Rightarrow> string \<Rightarrow> nat" where
  "matches_total a b = sum_list (map (\<lambda>triple. snd (snd triple)) (get_matching_blocks a b))"

definition ratio :: "string \<Rightarrow> string \<Rightarrow> rat" where
  "ratio a b = calculate_ratio (matches_total a b) (length a + length b)"

text \<open>
  \<open>quick_ratio\<close>: \<open>fullbcount\<close> counts the characters of \<open>b\<close>; \<open>avail\<close> holds, for a
  character met in \<open>a\<close>, how many of its occurrences in \<open>b\<close> are left, and may go below
  zero.
\<close>

fun fullbcount_of :: "string \<Rightarrow> (char \<Rightarrow> int) \<Rightarrow> (char \<Rightarrow> int)" where
  "fullbcount_of [] fullbcount = fullbcount"
| "fullbcount_of (elt # rest) fullbcount =
     fullbcount_of rest (fullbcount(elt := fullbcount elt + 1))"

fun quick_matches :: "string \<Rightarrow> (char \<Rightarrow> int) \<Rightarrow> (char \<Rightarrow> int option) \<Rightarrow> nat \<Rightarrow> nat" where
  "quick_matches [] fullbcount avail matches = matches"
| "quick_matches (elt # rest) fullbcount avail matches =
     (let numb = (case avail elt of Some n \<Rightarrow> n | None \<Rightarrow> fullbcount elt)
      in quick_matches rest fullbcount (avail(elt \<mapsto> numb - 1))
           (if numb > 0 then matches + 1 else matches))"

definition quick_ratio :: "string \<Rightarrow> string \<Rightarrow> rat" where
  "quick_ratio a b =
     calculate_ratio (quick_matches a (fullbcount_of b (\<lambda>elt. 0)) Map.empty 0)
       (length a + length b)"

definition real_quick_ratio :: "string \<Rightarrow> string \<Rightarrow> rat" where
  "real_quick_ratio a b =
     (let la = length a; lb = length b in calculate_ratio (min la lb) (la + lb))"

text \<open>
  \<open>get_close_matches(word, possibilities, n, cutoff)\<close>. The matcher is built with
  \<open>set_seq2(word)\<close> and \<open>set_seq1(x)\<close>: the candidate is the first sequence. The result
  of \<open>heapq.nlargest(n, result)\<close> is that of \<open>sorted(result, reverse=True)[:n]\<close>: the
  pairs of score and candidate in decreasing order, compared as tuples.
\<close>

text \<open>
  The exceptions that the modelled code can meet. All of them are subclasses of
  \<open>Exception\<close>; \<open>DisambiguationError\<close> carries its \<open>options\<close>, and \<open>OtherException\<close> stands
  for any further subclass (a timeout, a connection error, a malformed reply).
\<close>

datatype exn =
  ValueError | KeyError | IndexError
  | DisambiguationError "string list" | PageError | OtherException

fun close_candidates :: "string \<Rightarrow> rat \<Rightarrow> string list \<Rightarrow> (rat \<times> string) list \<Rightarrow> (rat \<times> string) list" where
  "close_candidates word cutoff [] result = result"
| "close_candidates word cutoff (x # possibilities) result =
     close_candidates word cutoff possibilities
       (if real_quick_ratio x word \<ge> cutoff \<and> quick_ratio x word \<ge> cutoff
           \<and> ratio x word \<ge> cutoff
        then result @ [(ratio x word, x)] else result)"

definition nlargest :: "nat \<Rightarrow> (rat \<times> string) list \<Rightarrow> (rat \<times> string) list" where
  "nlargest n result = take n (rev (sort result))"

definition get_close_matches :: "string \<Rightarrow> string list \<Rightarrow> nat \<Rightarrow> rat \<Rightarrow> exn + string list" where
  "get_close_matches word possibilities n cutoff =
     (if \<not> n > 0 then Inl ValueError
      else if \<not> (0 \<le> cutoff \<and> cutoff \<le> 1) then Inl ValueError
      else Inr (map snd (nlargest n (close_candidates word cutoff possibilities []))))"

section \<open>Fuzzy matcher\<close>

text \<open>
  The knowledge base is a dictionary from question to answer. It is an association
  list in the order of the dictionary; \<open>kb[k]\<close> raises \<open>KeyError\<close> on a missing key. The
  result is the triple of the source, \<open>None\<close> as \<open>None\<close>.
\<close>

type_synonym kb = "(string \<times> string) list"

type_synonym match_result = "string option \<times> string option \<times> rat"

definition FUZZY_CUTOFF :: rat where
  "FUZZY_CUTOFF = 6 / 10"

definition kb_item :: "kb \<Rightarrow> string \<Rightarrow> rat \<Rightarrow> exn + match_result" where
  "kb_item kb k score =
     (case map_of kb k of None \<Rightarrow> Inl KeyError | Some answer \<Rightarrow> Inr (Some k, Some answer, score))"

fun substring_fallback :: "string \<Rightarrow> kb \<Rightarrow> rat \<Rightarrow> string list \<Rightarrow> exn + match_result" where
  "substring_fallback user_q_norm kb cutoff [] = Inr (None, None, 0)"
| "substring_fallback user_q_norm kb cutoff (k # keys) =
     (if str_in k user_q_norm \<or> str_in user_q_norm k
      then (let score = ratio user_q_norm k
            in if score \<ge> cutoff then kb_item kb k score
               else substring_fallback user_q_norm kb cutoff keys)
      else substring_fallback user_q_norm kb cutoff keys)"

definition find_best_local_answer :: "string \<Rightarrow> kb \<Rightarrow> rat \<Rightarrow> exn + match_result" where
  "find_best_local_answer user_q kb cutoff =
     (let user_q_norm = normalize_text user_q;
          keys = map fst kb
      in case get_close_matches user_q_norm keys 3 cutoff of
           Inl e \<Rightarrow> Inl e
         | Inr matches \<Rightarrow>
             (case matches of
                best # others \<Rightarrow> kb_item kb best (ratio user_q_norm best)
              | [] \<Rightarrow> substring_fallback user_q_norm kb cutoff keys))"

section \<open>Properties of the text normalizer\<close>


lemma is_space_lower_char: "is_space (lower_char c) = is_space c"
  by (auto simp: lower_char_def is_space_def is_upper_def Let_def)

lemma not_upper_lower_char: "\<not> is_upper (lower_char c)"
  by (auto simp: lower_char_def is_upper_def Let_def)

lemma lower_char_fixed: "\<not> is_upper c \<Longrightarrow> lower_char c = c"
  by (simp add: lower_char_def)

lemma not_upper_space: "\<not> is_upper CHR '' ''"
  by (simp add: is_upper_def)

lemma is_space_space: "is_space CHR '' ''"
  by (simp add: is_space_def)

lemma set_py_strip: "set (py_strip s) \<subseteq> set s"
proof -
  have "set (py_strip s) \<subseteq> set (dropWhile is_space s)"
    unfolding py_strip_def using set_dropWhileD by fastforce
  also have "\<dots> \<subseteq> set s"
    using set_dropWhileD by fastforce
  finally show ?thesis .
qed

lemma set_collapse_whitespace:
  "set (collapse_whitespace s) \<subseteq> {c \<in> set s. \<not> is_space c} \<union> {CHR '' ''}"
proof (induction s rule: collapse_whitespace.induct)
  case 1
  show ?case by simp
next
  case (2 c cs)
  show ?case
  proof (cases "is_space c")
    case True
    with 2 have "set (collapse_whitespace (dropWhile is_space cs))
        \<subseteq> {c \<in> set (dropWhile is_space cs). \<not> is_space c} \<union> {CHR '' ''}"
      by simp
    also have "\<dots> \<subseteq> {c \<in> set cs. \<not> is_space c} \<union> {CHR '' ''}"
      using set_dropWhileD by fastforce
    finally show ?thesis using True by auto
  next
    case False
    with 2 show ?thesis by auto
  qed
qed

fun no_ws_run :: "string \<Rightarrow> bool" where
  "no_ws_run (c # d # cs) = (\<not> (is_space c \<and> is_space d) \<and> no_ws_run (d # cs))"
| "no_ws_run cs = True"

lemma no_ws_run_nth:
  "no_ws_run s \<Longrightarrow> Suc i < length s \<Longrightarrow> \<not> (is_space (s ! i) \<and> is_space (s ! Suc i))"
proof (induction s arbitrary: i rule: no_ws_run.induct)
  case (1 c d cs)
  then show ?case by (cases i) auto
qed auto

lemma hd_collapse_whitespace:
  "collapse_whitespace s = d # ds \<Longrightarrow> is_space d \<Longrightarrow> s \<noteq> [] \<and> is_space (hd s)"
  by (cases s) (auto split: if_splits)

lemma no_ws_run_collapse: "no_ws_run (collapse_whitespace s)"
proof (induction s rule: collapse_whitespace.induct)
  case 1
  show ?case by simp
next
  case (2 c cs)
  show ?case
  proof (cases "is_space c")
    case True
    let ?r = "collapse_whitespace (dropWhile is_space cs)"
    have ih: "no_ws_run ?r" using 2 True by simp
    show ?thesis
    proof (cases ?r)
      case Nil
      with True show ?thesis by simp
    next
      case (Cons d ds)
      have "\<not> is_space d"
      proof
        assume "is_space d"
        with Cons have "dropWhile is_space cs \<noteq> [] \<and> is_space (hd (dropWhile is_space cs))"
          using hd_collapse_whitespace by blast
        then show False using hd_dropWhile by blast
      qed
      with ih Cons True show ?thesis by simp
    qed
  next
    case False
    then have ih: "no_ws_run (collapse_whitespace cs)" using 2 by simp
    from False ih show ?thesis by (cases "collapse_whitespace cs") auto
  qed
qed

lemma normalize_text_chars:
  assumes "c \<in> set (normalize_text x)"
  shows "\<not> is_upper c \<and> (is_word c \<or> c = CHR '' '')"
proof (cases "c = CHR '' ''")
  case True
  then show ?thesis by (simp add: not_upper_space)
next
  case False
  let ?t1 = "py_strip (py_lower x)"
  from assms False have "c \<in> set (remove_punctuation ?t1)" "\<not> is_space c"
    using set_collapse_whitespace [of "remove_punctuation ?t1"]
    by (auto simp: normalize_text_def Let_def)
  then have w: "is_word c" and "c \<in> set ?t1"
    by (auto simp: remove_punctuation_def)
  then have "c \<in> set (py_lower x)" using set_py_strip by blast
  then have "\<not> is_upper c" by (auto simp: py_lower_def not_upper_lower_char)
  with w show ?thesis by simp
qed

lemma py_lower_fixed: "\<forall>c \<in> set s. \<not> is_upper c \<Longrightarrow> py_lower s = s"
  by (induction s) (auto simp: py_lower_def lower_char_fixed)


text \<open>
  What holds of every output of \<open>normalize_text\<close>: it is lowercase (lowering it again
  changes nothing), every character of it is a word character of the pattern
  (alphanumeric or the underscore) or the space character, and no two neighbouring
  characters of it are both whitespace.
\<close>

lemma normalize_text_shape:
  "py_lower (normalize_text x) = normalize_text x
   \<and> (\<forall>c \<in> set (normalize_text x). is_word c \<or> c = CHR '' '')
   \<and> (\<forall>i. Suc i < length (normalize_text x) \<longrightarrow>
         \<not> (is_space (normalize_text x ! i) \<and> is_space (normalize_text x ! Suc i)))"
proof (intro conjI)
  show "py_lower (normalize_text x) = normalize_text x"
    by (rule py_lower_fixed) (simp add: normalize_text_chars)
  show "\<forall>c \<in> set (normalize_text x). is_word c \<or> c = CHR '' ''"
    by (simp add: normalize_text_chars)
  have "no_ws_run (normalize_text x)"
    by (simp add: normalize_text_def Let_def no_ws_run_collapse)
  then show "\<forall>i. Suc i < length (normalize_text x) \<longrightarrow>
         \<not> (is_space (normalize_text x ! i) \<and> is_space (normalize_text x ! Suc i))"
    using no_ws_run_nth by blast
qed

lemma normalize_text_example: "normalize_text ''A_b  c!'' = ''a_b c''"
  by code_simp

text \<open>
  Claim C8 at the inputs \<open>a_b\<close> and \<open>! a !\<close>. The output is to hold alphanumeric
  characters and whitespace only, and to have no whitespace at its two ends. The
  function is documented to remove punctuation, and the underscore, a punctuation
  character, survives, because the class \<open>\w\<close> of the pattern contains it: the output
  \<open>a_b\<close> holds a character that is neither alphanumeric nor whitespace. And the
  normalizer trims before it deletes punctuation, so the spaces next to the two
  deleted marks stay at both ends of the output.
\<close>

theorem normalize_text_keeps_underscore_and_edge_spaces:
  "normalize_text ''a_b'' = ''a_b''
   \<and> \<not> is_alnum CHR ''_'' \<and> \<not> is_space CHR ''_''
   \<and> normalize_text ''! a !'' = '' a ''
   \<and> is_space (hd '' a '') \<and> is_space (last '' a '')"
  by code_simp

text \<open>
  Claim C7 (idempotence) at the input \<open>a !\<close>: the normalizer trims before it deletes
  punctuation, so the space in front of the deleted \<open>!\<close> stays at the end of the
  output, and a second pass removes it.
\<close>

theorem normalize_text_not_idempotent:
  "normalize_text ''a !'' = ''a '' \<and> normalize_text (normalize_text ''a !'') = ''a''"
  by code_simp


section \<open>External summary client\<close>

text \<open>
  The \<open>wikipedia\<close> package is the external collaborator. A provider gives the two
  operations the code calls; each takes the state \<open>'w\<close> of the outside world and returns
  a value or raises, with the next state. Every call is appended to a log, so that what
  the code asked of the provider, and how often, can be stated.
\<close>

datatype call =
  Search string int
  | Summary string int bool bool

record 'w provider =
  search :: "string \<Rightarrow> int \<Rightarrow> 'w \<Rightarrow> (exn + string list) \<times> 'w"
  summary :: "string \<Rightarrow> int \<Rightarrow> bool \<Rightarrow> bool \<Rightarrow> 'w \<Rightarrow> (exn + string) \<times> 'w"

type_synonym 'w world = "'w \<times> call list"

text \<open>\<open>wikipedia.search(query, results=results)\<close>\<close>

definition wikipedia_search ::
  "'w provider \<Rightarrow> string \<Rightarrow> int \<Rightarrow> 'w world \<Rightarrow> (exn + string list) \<times> 'w world"
where
  "wikipedia_search P query results st =
     (case st of (w, calls) \<Rightarrow> case search P query results w of
        (r, w') \<Rightarrow> (r, (w', calls @ [Search query results])))"

text \<open>\<open>wikipedia.summary(title, sentences=sentences, auto_suggest=..., redirect=...)\<close>\<close>

definition wikipedia_summary ::
  "'w provider \<Rightarrow> string \<Rightarrow> int \<Rightarrow> bool \<Rightarrow> bool \<Rightarrow> 'w world \<Rightarrow> (exn + string) \<times> 'w world"
where
  "wikipedia_summary P title sentences auto_suggest redirect st =
     (case st of (w, calls) \<Rightarrow> case summary P title sentences auto_suggest redirect w of
        (r, w') \<Rightarrow> (r, (w', calls @ [Summary title sentences auto_suggest redirect])))"

definition WIKI_SENTENCES :: int where
  "WIKI_SENTENCES = 2"

text \<open>The formatted string \<open>f"According to Wikipedia ({title}):\n{summary}"\<close>.\<close>

definition format_summary :: "string \<Rightarrow> string \<Rightarrow> string" where
  "format_summary title summary_text =
     ''According to Wikipedia ('' @ title @ ''):'' @ [CHR 0x0A] @ summary_text"

text \<open>The body of the outer \<open>try\<close>.\<close>

definition fetch_attempt ::
  "'w provider \<Rightarrow> string \<Rightarrow> int \<Rightarrow> 'w world \<Rightarrow> (exn + string option) \<times> 'w world"
where
  "fetch_attempt P query sentences st =
     (case wikipedia_search P query 5 st of
        (Inl e, st1) \<Rightarrow> (Inl e, st1)
      | (Inr search_results, st1) \<Rightarrow>
          (case search_results of
             [] \<Rightarrow> (Inr None, st1)
           | page_title # others \<Rightarrow>
               (case wikipedia_summary P page_title sentences False True st1 of
                  (Inl e, st2) \<Rightarrow> (Inl e, st2)
                | (Inr summary_text, st2) \<Rightarrow>
                    (Inr (Some (format_summary page_title summary_text)), st2))))"

text \<open>
  The handler \<open>except wikipedia.DisambiguationError as e\<close>: its inner \<open>try\<close> reads
  \<open>e.options[0]\<close>, which raises \<open>IndexError\<close> on an empty list, and asks for the summary
  of that option; the inner \<open>except Exception\<close> turns every exception into \<open>None\<close>.
\<close>

definition retry_first_option ::
  "'w provider \<Rightarrow> string list \<Rightarrow> int \<Rightarrow> 'w world \<Rightarrow> (exn + string option) \<times> 'w world"
where
  "retry_first_option P e_options sentences st =
     (case (case e_options of
              [] \<Rightarrow> (Inl IndexError, st)
            | option # others \<Rightarrow>
                (case wikipedia_summary P option sentences False True st of
                   (Inl e, st1) \<Rightarrow> (Inl e, st1)
                 | (Inr summary_text, st1) \<Rightarrow>
                     (Inr (Some (format_summary option summary_text)), st1))) of
        (Inl e, st1) \<Rightarrow> (Inr None, st1)
      | (Inr r, st1) \<Rightarrow> (Inr r, st1))"

definition fetch_wikipedia_summary ::
  "'w provider \<Rightarrow> string \<Rightarrow> int \<Rightarrow> 'w world \<Rightarrow> (exn + string option) \<times> 'w world"
where
  "fetch_wikipedia_summary P query sentences st =
     (case fetch_attempt P query sentences st of
        (Inr r, st1) \<Rightarrow> (Inr r, st1)
      | (Inl (DisambiguationError e_options), st1) \<Rightarrow> retry_first_option P e_options sentences st1
      | (Inl PageError, st1) \<Rightarrow> (Inr None, st1)
      | (Inl e, st1) \<Rightarrow> (Inr None, st1))"

section \<open>Response resolver\<close>

text \<open>
  The knowledge base of the source. The source file is UTF-8 and three of its texts
  contain the dash U+2014, which is beyond the characters of HOL; it is written as the
  three bytes of its encoding. These texts are only returned, never scanned.
\<close>

definition em_dash :: string where
  "em_dash = [CHR 0xE2, CHR 0x80, CHR 0x94]"

definition QA_KB :: kb where
  "QA_KB =
     [(''what is python'',
       ''Python is a high-level, interpreted programming language known for its readability and large ecosystem.''),
      (''who is elon musk'',
       ''Elon Musk is an entrepreneur and CEO of Tesla and SpaceX, among other ventures.''),
      (''what is ai'',
       ''AI stands for Artificial Intelligence '' @ em_dash
         @ '' the simulation of human intelligence in machines.''),
      (''what is github'',
       ''GitHub is a platform for hosting and collaborating on software projects using Git.''),
      (''how to learn programming'',
       ''Start with fundamentals (variables, loops, functions), build small projects, and practice consistently.''),
      (''what is machine learning'',
       ''Machine Learning is a subset of AI that allows systems to learn patterns from data and make predictions.'')]"

definition reply_empty :: string where
  "reply_empty = ''Please type something '' @ em_dash @ '' I didn't get your message.''"

definition reply_greeting :: string where
  "reply_greeting = ''Hello! How can I help you today?''"

definition reply_status :: string where
  "reply_status = ''I'm a program, doing fine! How about you?''"

definition reply_identity :: string where
  "reply_identity = ''I'm ChatBot '' @ em_dash
     @ '' a hybrid assistant (local + Wikipedia). Type 'help' to see options.''"

definition reply_thanks :: string where
  "reply_thanks = ''You're welcome!''"

definition reply_goodbye :: string where
  "reply_goodbye = ''Goodbye! Have a great day''"

definition reply_help :: string where
  "reply_help = ''I can answer common questions from my local knowledge base. ''
     @ ''If I don't know, I'll try Wikipedia. Examples:'' @ [CHR 0x0A]
     @ ''- Who is Elon Musk?'' @ [CHR 0x0A] @ ''- What is Python?'' @ [CHR 0x0A]
     @ ''Type 'exit' to leave.''"

definition reply_fallback :: string where
  "reply_fallback = ''Sorry, I couldn't find an answer. Try rephrasing or ask something else.''"

text \<open>
  The keyword-based quick replies of \<open>chatbot_reply\<close>, in the order of the source, on the
  lowered input \<open>low\<close>; \<open>None\<close> when no rule applies.
\<close>

definition quick_reply :: "string \<Rightarrow> string option" where
  "quick_reply low =
     (if list_ex (\<lambda>g. str_in g low) [''hi'', ''hello'', ''hey''] then Some reply_greeting
      else if str_in ''how are you'' low \<or> str_in ''how r you'' low \<or> str_in ''how are u'' low
        then Some reply_status
      else if str_in ''your name'' low \<or> str_in ''who are you'' low then Some reply_identity
      else if py_strip low \<in> set [''thanks'', ''thank you'', ''thx''] then Some reply_thanks
      else if py_strip low \<in> set [''bye'', ''goodbye'', ''exit'', ''quit''] then Some reply_goodbye
      else if py_strip low = ''help'' then Some reply_help
      else None)"

text \<open>Steps 2 and 3 of \<open>chatbot_reply\<close>: Wikipedia, then the generic reply.\<close>

definition wikipedia_fallback ::
  "'w provider \<Rightarrow> string \<Rightarrow> 'w world \<Rightarrow> (exn + string) \<times> 'w world"
where
  "wikipedia_fallback P user_input st =
     (case fetch_wikipedia_summary P user_input WIKI_SENTENCES st of
        (Inl e, st1) \<Rightarrow> (Inl e, st1)
      | (Inr wiki_ans, st1) \<Rightarrow>
          (case wiki_ans of
             Some text \<Rightarrow> if text \<noteq> [] then (Inr text, st1) else (Inr reply_fallback, st1)
           | None \<Rightarrow> (Inr reply_fallback, st1)))"

text \<open>
  \<open>chatbot_reply\<close>. The module's global \<open>QA_KB\<close> is the parameter \<open>kb\<close>; \<open>if answer:\<close>
  holds for a string that is not empty.
\<close>

definition chatbot_reply ::
  "kb \<Rightarrow> 'w provider \<Rightarrow> string \<Rightarrow> 'w world \<Rightarrow> (exn + string) \<times> 'w world"
where
  "chatbot_reply kb P raw_input st =
     (let user_input = py_strip raw_input
      in if user_input = [] then (Inr reply_empty, st)
         else
           (let low = py_lower user_input
            in case quick_reply low of
                 Some reply \<Rightarrow> (Inr reply, st)
               | None \<Rightarrow>
                   (case find_best_local_answer user_input kb FUZZY_CUTOFF of
                      Inl e \<Rightarrow> (Inl e, st)
                    | Inr (match_key, answer, score) \<Rightarrow>
                        (case answer of
                           Some text \<Rightarrow>
                             if text \<noteq> []
                             then (if score < 8 / 10 then (Inr (''(Local) '' @ text), st)
                                   else (Inr text, st))
                             else wikipedia_fallback P user_input st
                         | None \<Rightarrow> wikipedia_fallback P user_input st))))"

text \<open>A provider without network: every request fails.\<close>

definition offline :: "unit provider" where
  "offline = \<lparr> search = (\<lambda>query results w. (Inl OtherException, w)),
               summary = (\<lambda>title sentences auto_suggest redirect w. (Inl OtherException, w)) \<rparr>"

section \<open>Properties of the external summary client\<close>

lemma retry_first_option_returns:
  "\<exists>r st2. retry_first_option P e_options sentences st1 = (Inr r, st2)
     \<and> (r = None \<or> (\<exists>title text. r = Some (format_summary title text)))"
proof (cases e_options)
  case Nil
  then show ?thesis by (simp add: retry_first_option_def)
next
  case (Cons option others)
  obtain outcome st2 where "wikipedia_summary P option sentences False True st1 = (outcome, st2)"
    by (cases "wikipedia_summary P option sentences False True st1") auto
  with Cons show ?thesis
    by (cases outcome) (auto simp: retry_first_option_def)
qed

lemma fetch_wikipedia_summary_returns:
  "\<exists>r st1. fetch_wikipedia_summary P query sentences st = (Inr r, st1)
     \<and> (r = None \<or> (\<exists>title text. r = Some (format_summary title text)))"
proof -
  obtain outcome st1 where Pair: "fetch_attempt P query sentences st = (outcome, st1)"
    by (cases "fetch_attempt P query sentences st") auto
  show ?thesis
  proof (cases outcome)
    case (Inr r)
    with Pair have "r = None \<or> (\<exists>title text. r = Some (format_summary title text))"
      by (auto simp: fetch_attempt_def split: prod.splits sum.splits list.splits)
    with Pair Inr show ?thesis
      by (simp add: fetch_wikipedia_summary_def)
  next
    case (Inl e)
    show ?thesis
    proof (cases e)
      case (DisambiguationError e_options)
      obtain r st2 where retry: "retry_first_option P e_options sentences st1 = (Inr r, st2)"
        and shape: "r = None \<or> (\<exists>title text. r = Some (format_summary title text))"
        using retry_first_option_returns by blast
      with Pair Inl DisambiguationError show ?thesis
        by (simp add: fetch_wikipedia_summary_def)
    qed (use Pair Inl in \<open>simp_all add: fetch_wikipedia_summary_def\<close>)
  qed
qed

text \<open>
  Claim C3. For every query, every sentence count and every behaviour of the provider,
  \<open>fetch_wikipedia_summary\<close> returns; it raises nothing, and what it returns is \<open>None\<close> or
  a formatted summary.
\<close>

theorem fetch_wikipedia_summary_never_raises:
  "\<exists>r st1. fetch_wikipedia_summary P query sentences st = (Inr r, st1)
     \<and> (r = None \<or> (\<exists>title text. r = Some (format_summary title text)))"
  by (rule fetch_wikipedia_summary_returns)


text \<open>
  A provider for which the title \<open>Mercury\<close> is ambiguous; its state counts the requests.
\<close>

definition ambiguous :: "nat provider" where
  "ambiguous =
     \<lparr> search = (\<lambda>query results w. (Inr [''Mercury'', ''Mercury (planet)''], Suc w)),
       summary = (\<lambda>title sentences auto_suggest redirect w.
          (if title = ''Mercury''
           then Inl (DisambiguationError [''Mercury (planet)'', ''Mercury (element)''])
           else Inr ''Mercury is a planet.'', Suc w)) \<rparr>"


section \<open>Properties of the response resolver\<close>

subsection \<open>Substrings\<close>

lemma starts_with_iff: "starts_with needle hay \<longleftrightarrow> (\<exists>q. hay = needle @ q)"
  by (induction needle hay rule: starts_with.induct) auto

lemma str_in_iff: "str_in needle hay \<longleftrightarrow> (\<exists>p q. hay = p @ needle @ q)"
proof (induction hay)
  case Nil
  show ?case by auto
next
  case (Cons d ds)
  show ?case
  proof
    assume "str_in needle (d # ds)"
    then consider "starts_with needle (d # ds)" | "str_in needle ds" by auto
    then show "\<exists>p q. d # ds = p @ needle @ q"
    proof cases
      case 1
      then obtain q where "d # ds = needle @ q" using starts_with_iff by blast
      then have "d # ds = [] @ needle @ q" by simp
      then show ?thesis by blast
    next
      case 2
      with Cons obtain p q where "ds = p @ needle @ q" by blast
      then have "d # ds = (d # p) @ needle @ q" by simp
      then show ?thesis by blast
    qed
  next
    assume "\<exists>p q. d # ds = p @ needle @ q"
    then obtain p q where pq: "d # ds = p @ needle @ q" by blast
    show "str_in needle (d # ds)"
    proof (cases p)
      case Nil
      with pq have "starts_with needle (d # ds)" using starts_with_iff by auto
      then show ?thesis by simp
    next
      case (Cons c p1)
      with pq have "ds = p1 @ needle @ q" by simp
      with Cons.IH have "str_in needle ds" by blast
      then show ?thesis by simp
    qed
  qed
qed

lemma dropWhile_keeps_occurrence:
  assumes "g \<noteq> []" and "\<not> is_space (hd g)"
  shows "\<exists>p1. dropWhile is_space (p @ g @ q) = p1 @ g @ q"
proof (induction p)
  case Nil
  from assms have "dropWhile is_space (g @ q) = g @ q"
    by (cases g) auto
  then have "dropWhile is_space ([] @ g @ q) = [] @ g @ q" by simp
  then show ?case by blast
next
  case (Cons c p)
  show ?case
  proof (cases "is_space c")
    case True
    with Cons show ?thesis by simp
  next
    case False
    then have "dropWhile is_space ((c # p) @ g @ q) = (c # p) @ g @ q" by simp
    then show ?thesis by blast
  qed
qed

lemma str_in_py_strip:
  assumes "str_in g t" and "g \<noteq> []" and "\<not> is_space (hd g)" and "\<not> is_space (last g)"
  shows "str_in g (py_strip t)"
proof -
  from assms(1) obtain p q where "t = p @ g @ q"
    using str_in_iff by blast
  then obtain p1 where left: "dropWhile is_space t = p1 @ g @ q"
    using dropWhile_keeps_occurrence [OF assms(2,3)] by blast
  have "rev g \<noteq> []" and "\<not> is_space (hd (rev g))"
    using assms(2,4) by (simp_all add: hd_rev)
  then obtain q1 where "dropWhile is_space (rev q @ rev g @ rev p1) = q1 @ rev g @ rev p1"
    using dropWhile_keeps_occurrence by blast
  then have "py_strip t = p1 @ g @ rev q1"
    by (simp add: py_strip_def left)
  then show ?thesis
    using str_in_iff by blast
qed

lemma py_lower_py_strip: "py_lower (py_strip s) = py_strip (py_lower s)"
proof -
  have comp: "is_space \<circ> lower_char = is_space"
    by (rule ext) (simp add: is_space_lower_char)
  show ?thesis
    by (simp add: py_strip_def py_lower_def dropWhile_map rev_map comp)
qed

lemma str_in_py_lower:
  assumes "str_in g t" and "py_lower g = g"
  shows "str_in g (py_lower t)"
proof -
  from assms(1) obtain p q where "t = p @ g @ q"
    using str_in_iff by blast
  then have "py_lower t = py_lower p @ g @ py_lower q"
    using assms(2) by (simp add: py_lower_def)
  then show ?thesis
    using str_in_iff by blast
qed

lemma str_in_Nil: "str_in g [] \<longleftrightarrow> g = []"
  by simp

subsection \<open>Greeting\<close>

lemma greeting_keyword:
  assumes "g \<in> set [''hi'', ''hello'', ''hey'']" and "str_in g (py_lower raw_input)"
  shows "chatbot_reply kb P raw_input st = (Inr reply_greeting, st)"
proof -
  have g: "g \<noteq> []" "\<not> is_space (hd g)" "\<not> is_space (last g)"
    using assms(1) by (auto simp: is_space_def)
  have low: "str_in g (py_lower (py_strip raw_input))"
    unfolding py_lower_py_strip by (rule str_in_py_strip [OF assms(2) g])
  then have "py_lower (py_strip raw_input) \<noteq> []"
    using g(1) by auto
  then have nonempty: "py_strip raw_input \<noteq> []"
    by (auto simp: py_lower_def)
  have "list_ex (\<lambda>g. str_in g (py_lower (py_strip raw_input))) [''hi'', ''hello'', ''hey'']"
    unfolding list_ex_iff using assms(1) low by blast
  then have "quick_reply (py_lower (py_strip raw_input)) = Some reply_greeting"
    by (simp only: quick_reply_def if_True)
  with nonempty show ?thesis
    by (simp add: chatbot_reply_def Let_def)
qed

text \<open>
  Claim C2. For every input that is not empty after trimming and whose lowercase form
  contains \<open>hi\<close>, \<open>hello\<close> or \<open>hey\<close>, \<open>chatbot_reply\<close> returns the canned greeting, whatever the
  knowledge base and the provider are; the state of the world and the log of provider
  calls are as before, so the external client was not called.
\<close>

theorem greeting_before_lookup:
  assumes "py_strip raw_input \<noteq> []"
    and "str_in ''hi'' (py_lower raw_input) \<or> str_in ''hello'' (py_lower raw_input)
         \<or> str_in ''hey'' (py_lower raw_input)"
  shows "chatbot_reply kb P raw_input (w, calls)
         = (Inr ''Hello! How can I help you today?'', (w, calls))"
proof -
  from assms(2) obtain g where "g \<in> set [''hi'', ''hello'', ''hey'']"
    and "str_in g (py_lower raw_input)"
    by auto
  then show ?thesis
    using greeting_keyword [of g raw_input kb P "(w, calls)"] by (simp add: reply_greeting_def)
qed

theorem greeting_before_lookup_witness:
  "chatbot_reply [(''oh hello there'', ''a stored answer'')] ambiguous '' Oh, HELLO there! '' (0, [])
   = (Inr ''Hello! How can I help you today?'', (0, []))"
proof -
  have nonempty: "py_strip '' Oh, HELLO there! '' \<noteq> []"
    by code_simp
  have "str_in ''hello'' (py_lower '' Oh, HELLO there! '')"
    by code_simp
  then have keyword: "str_in ''hi'' (py_lower '' Oh, HELLO there! '')
      \<or> str_in ''hello'' (py_lower '' Oh, HELLO there! '')
      \<or> str_in ''hey'' (py_lower '' Oh, HELLO there! '')"
    by blast
  show ?thesis
    by (rule greeting_before_lookup [OF nonempty keyword])
qed

text \<open>
  Claim C9, as amended. \<open>chatbot_reply\<close> answers the query \<open>what is machine learning\<close> with
  the canned greeting and not with the answer stored under that key, because the query
  contains \<open>hi\<close>; and every query that contains \<open>hi\<close> gets the greeting, whatever the
  knowledge base and the provider are, with no call of the external client.
\<close>

theorem machine_learning_key_shadowed:
  "chatbot_reply QA_KB P ''what is machine learning'' (w, calls)
     = (Inr ''Hello! How can I help you today?'', (w, calls))
   \<and> map_of QA_KB ''what is machine learning'' \<noteq> Some ''Hello! How can I help you today?''
   \<and> (\<forall>kb raw_input. str_in ''hi'' raw_input \<longrightarrow>
         chatbot_reply kb P raw_input (w, calls)
         = (Inr ''Hello! How can I help you today?'', (w, calls)))"
proof (intro conjI allI impI)
  have hi: "chatbot_reply kb P raw_input (w, calls)
      = (Inr ''Hello! How can I help you today?'', (w, calls))"
    if "str_in ''hi'' raw_input" for kb raw_input
  proof -
    have "py_lower ''hi'' = ''hi''"
      by code_simp
    with that have "str_in ''hi'' (py_lower raw_input)"
      by (rule str_in_py_lower)
    then show ?thesis
      using greeting_keyword [of "''hi''" raw_input kb P "(w, calls)"]
      by (simp add: reply_greeting_def)
  qed
  show "chatbot_reply kb P raw_input (w, calls)
      = (Inr ''Hello! How can I help you today?'', (w, calls))"
    if "str_in ''hi'' raw_input" for kb raw_input
    using that by (rule hi)
  have "str_in ''hi'' ''what is machine learning''"
    by code_simp
  then show "chatbot_reply QA_KB P ''what is machine learning'' (w, calls)
      = (Inr ''Hello! How can I help you today?'', (w, calls))"
    by (rule hi)
  show "map_of QA_KB ''what is machine learning'' \<noteq> Some ''Hello! How can I help you today?''"
    by code_simp
qed

theorem machine_learning_key_shadowed_witness:
  "str_in ''hi'' ''this''
   \<and> chatbot_reply QA_KB offline ''this'' ((), [])
       = (Inr ''Hello! How can I help you today?'', ((), []))"
proof -
  have "str_in ''hi'' ''this''"
    by code_simp
  then show ?thesis
    using machine_learning_key_shadowed [of offline "()" "[]"] by blast
qed

text \<open>
  Claim C9 as stated fails: the entry is reachable. The query \<open>what is macine learning\<close>
  contains no greeting keyword, matches the key \<open>what is machine learning\<close> with score
  \<open>46/47\<close>, and is answered with the stored text.
\<close>

theorem machine_learning_entry_reached:
  "chatbot_reply QA_KB offline ''what is macine learning'' ((), []) =
     (Inr ''Machine Learning is a subset of AI that allows systems to learn patterns from data and make predictions.'',
      ((), []))"
  by code_simp

section \<open>Properties of the fuzzy matcher\<close>

lemma close_candidates_subset:
  "snd ` set (close_candidates word cutoff possibilities result)
     \<subseteq> set possibilities \<union> snd ` set result"
proof (induction possibilities arbitrary: result)
  case Nil
  show ?case by simp
next
  case (Cons x possibilities)
  let ?result = "if real_quick_ratio x word \<ge> cutoff \<and> quick_ratio x word \<ge> cutoff
                    \<and> ratio x word \<ge> cutoff
                 then result @ [(ratio x word, x)] else result"
  have "snd ` set (close_candidates word cutoff possibilities ?result)
      \<subseteq> set possibilities \<union> snd ` set ?result"
    by (rule Cons.IH)
  also have "\<dots> \<subseteq> set (x # possibilities) \<union> snd ` set result"
    by auto
  finally show ?case by simp
qed

lemma set_nlargest: "set (nlargest n result) \<subseteq> set result"
  unfolding nlargest_def using set_take_subset [of n "rev (sort result)"] by simp

lemma get_close_matches_subset:
  assumes "get_close_matches word possibilities n cutoff = Inr matches"
  shows "set matches \<subseteq> set possibilities"
proof -
  from assms have "matches = map snd (nlargest n (close_candidates word cutoff possibilities []))"
    by (auto simp: get_close_matches_def split: if_splits)
  then have "set matches \<subseteq> snd ` set (close_candidates word cutoff possibilities [])"
    using set_nlargest by fastforce
  then show ?thesis
    using close_candidates_subset [of word cutoff possibilities "[]"] by auto
qed

lemma get_close_matches_returns:
  assumes "0 \<le> cutoff" and "cutoff \<le> 1"
  shows "get_close_matches word possibilities 3 cutoff
         = Inr (map snd (nlargest 3 (close_candidates word cutoff possibilities [])))"
  using assms by (simp add: get_close_matches_def)

lemma kb_item_key:
  assumes "k \<in> fst ` set kb"
  shows "kb_item kb k score = Inr (Some k, map_of kb k, score)" and "map_of kb k \<noteq> None"
proof -
  from assms show "map_of kb k \<noteq> None"
    by (simp add: map_of_eq_None_iff)
  then show "kb_item kb k score = Inr (Some k, map_of kb k, score)"
    by (auto simp: kb_item_def)
qed

lemma kb_item_answer:
  assumes "kb_item kb k score = Inr (Some key, Some answer, s)"
  shows "(key, answer) \<in> set kb"
  using assms by (auto simp: kb_item_def split: option.splits dest: map_of_SomeD)

lemma substring_fallback_find:
  assumes "set keys \<subseteq> fst ` set kb"
  shows "substring_fallback q kb cutoff keys =
     Inr (case find (\<lambda>k. (str_in k q \<or> str_in q k) \<and> ratio q k \<ge> cutoff) keys of
            Some k \<Rightarrow> (Some k, map_of kb k, ratio q k)
          | None \<Rightarrow> (None, None, 0))"
  using assms
proof (induction keys)
  case Nil
  show ?case by simp
next
  case (Cons k keys)
  then have "k \<in> fst ` set kb" by simp
  then have "kb_item kb k (ratio q k) = Inr (Some k, map_of kb k, ratio q k)"
    by (rule kb_item_key)
  with Cons show ?case
    by (simp add: Let_def)
qed

lemma substring_fallback_answer:
  assumes "substring_fallback q kb cutoff keys = Inr (Some key, Some answer, s)"
  shows "(key, answer) \<in> set kb"
  using assms
  by (induction keys) (auto simp: Let_def kb_item_answer split: if_splits)

lemma find_best_local_answer_stored:
  assumes "find_best_local_answer user_q kb cutoff = Inr (Some key, Some answer, score)"
  shows "(key, answer) \<in> set kb"
  using assms
  by (auto simp: find_best_local_answer_def Let_def kb_item_answer substring_fallback_answer
      split: sum.splits list.splits)

text \<open>
  Claim C6, as amended. For every cutoff between 0 and 1, every query and every
  knowledge base, \<open>find_best_local_answer\<close> returns a result and raises nothing. When
  the ranked pass \<open>get_close_matches\<close> gives no candidate, the result is made from the
  first key, in the order of the knowledge base, that contains the normalized query or
  is contained in it and whose score against the query is at least the cutoff: that
  key, its answer and that score; and it is \<open>(None, None, 0.0)\<close> when there is no such
  key.
\<close>

theorem substring_fallback_phase:
  assumes "0 \<le> cutoff" and "cutoff \<le> 1"
  shows "(\<exists>r. find_best_local_answer user_q kb cutoff = Inr r)
     \<and> (get_close_matches (normalize_text user_q) (map fst kb) 3 cutoff = Inr [] \<longrightarrow>
          find_best_local_answer user_q kb cutoff =
            Inr (case find (\<lambda>k. (str_in k (normalize_text user_q) \<or> str_in (normalize_text user_q) k)
                              \<and> ratio (normalize_text user_q) k \<ge> cutoff) (map fst kb) of
                   Some k \<Rightarrow> (Some k, map_of kb k, ratio (normalize_text user_q) k)
                 | None \<Rightarrow> (None, None, 0)))"
proof -
  let ?q = "normalize_text user_q"
  let ?fallback = "Inr (case find (\<lambda>k. (str_in k ?q \<or> str_in ?q k) \<and> ratio ?q k \<ge> cutoff) (map fst kb) of
                   Some k \<Rightarrow> (Some k, map_of kb k, ratio ?q k)
                 | None \<Rightarrow> (None, None, 0))"
  obtain matches where m: "get_close_matches ?q (map fst kb) 3 cutoff = Inr matches"
    using get_close_matches_returns [OF assms] by blast
  have fb: "substring_fallback ?q kb cutoff (map fst kb) = ?fallback"
    by (rule substring_fallback_find) simp
  show ?thesis
  proof (cases matches)
    case Nil
    with m fb have "find_best_local_answer user_q kb cutoff = ?fallback"
      by (simp add: find_best_local_answer_def Let_def)
    then show ?thesis by blast
  next
    case (Cons best others)
    with m have "best \<in> set (map fst kb)"
      using get_close_matches_subset by fastforce
    then have "kb_item kb best (ratio ?q best) = Inr (Some best, map_of kb best, ratio ?q best)"
      by (intro kb_item_key) simp
    with m Cons show ?thesis
      by (simp add: find_best_local_answer_def Let_def)
  qed
qed

text \<open>
  A query of 201 characters and the key \<open>ab\<close>. In the ranked pass the long query is the
  second sequence, its two frequent letters are popular and are left out of the index,
  and the score of the key is 0; in the substring pass the key is the second sequence
  and the score is \<open>4/203\<close>.
\<close>

definition long_query :: string where
  "long_query = CHR ''c'' # concat (replicate 100 ''ab'')"

lemma long_query_normalized: "normalize_text long_query = long_query"
  by code_simp

lemma long_query_no_close_match:
  "get_close_matches long_query (map fst [(''ab'', ''stored'')]) 3 (1 / 100) = Inr []"
  by code_simp

lemma long_query_fallback:
  "find (\<lambda>k. (str_in k long_query \<or> str_in long_query k) \<and> ratio long_query k \<ge> 1 / 100)
     (map fst [(''ab'', ''stored'')]) = Some ''ab''"
  "ratio long_query ''ab'' = 4 / 203"
  by code_simp+

theorem substring_fallback_phase_witness:
  "get_close_matches (normalize_text long_query) (map fst [(''ab'', ''stored'')]) 3 (1 / 100) = Inr []
   \<and> find_best_local_answer long_query [(''ab'', ''stored'')] (1 / 100)
       = Inr (Some ''ab'', Some ''stored'', 4 / 203)"
proof -
  have cutoff: "(0 :: rat) \<le> 1 / 100" "(1 :: rat) / 100 \<le> 1"
    by simp_all
  note phase = substring_fallback_phase [OF cutoff, of long_query "[(''ab'', ''stored'')]",
      unfolded long_query_normalized]
  have "find_best_local_answer long_query [(''ab'', ''stored'')] (1 / 100)
      = Inr (case find (\<lambda>k. (str_in k long_query \<or> str_in long_query k)
                              \<and> ratio long_query k \<ge> 1 / 100) (map fst [(''ab'', ''stored'')]) of
                   Some k \<Rightarrow> (Some k, map_of [(''ab'', ''stored'')] k, ratio long_query k)
                 | None \<Rightarrow> (None, None, 0))"
    by (rule conjunct2 [OF phase, rule_format, OF long_query_no_close_match])
  then have "find_best_local_answer long_query [(''ab'', ''stored'')] (1 / 100)
      = Inr (Some ''ab'', Some ''stored'', 4 / 203)"
    by (simp only: long_query_fallback option.case map_of.simps fst_conv snd_conv fun_upd_same)
  with long_query_no_close_match show ?thesis
    unfolding long_query_normalized by simp
qed

text \<open>
  Claim C6 as stated fails where it says that the function never throws: a cutoff
  outside the interval from 0 to 1 makes \<open>get_close_matches\<close> raise \<open>ValueError\<close>.
\<close>

theorem cutoff_above_one_raises:
  "find_best_local_answer ''what is python'' QA_KB 2 = Inl ValueError"
  by (simp add: find_best_local_answer_def get_close_matches_def)

subsection \<open>Local answers in the reply\<close>

lemma QA_KB_answers: "(key, answer) \<in> set QA_KB \<Longrightarrow> answer \<noteq> []"
  by (auto simp: QA_KB_def)

lemma chatbot_reply_lookup:
  assumes "py_strip raw_input \<noteq> []" and "quick_reply (py_lower (py_strip raw_input)) = None"
    and "find_best_local_answer (py_strip raw_input) kb FUZZY_CUTOFF = Inr (match_key, answer, score)"
  shows "chatbot_reply kb P raw_input st =
     (case answer of
        Some text \<Rightarrow>
          if text \<noteq> []
          then (if score < 8 / 10 then (Inr (''(Local) '' @ text), st) else (Inr text, st))
          else wikipedia_fallback P (py_strip raw_input) st
      | None \<Rightarrow> wikipedia_fallback P (py_strip raw_input) st)"
  using assms by (simp add: chatbot_reply_def Let_def)

text \<open>
  Claim C1. For every input that is not empty after trimming and matches no quick-reply
  rule, if \<open>find_best_local_answer\<close> returns a match with a key, an answer and a score on
  the knowledge base of the program, then \<open>chatbot_reply\<close> returns \<open>(Local) \<close> followed by
  the answer when the score is below 0.8 and the answer itself otherwise.
\<close>

theorem local_answer_marked_below_threshold:
  assumes "py_strip raw_input \<noteq> []" and "quick_reply (py_lower (py_strip raw_input)) = None"
    and "find_best_local_answer (py_strip raw_input) QA_KB FUZZY_CUTOFF
         = Inr (Some key, Some answer, score)"
  shows "chatbot_reply QA_KB P raw_input st =
     (Inr (if score < 8 / 10 then ''(Local) '' @ answer else answer), st)"
proof -
  have "(key, answer) \<in> set QA_KB"
    using assms(3) by (rule find_best_local_answer_stored)
  then have "answer \<noteq> []"
    by (rule QA_KB_answers)
  then show ?thesis
    using chatbot_reply_lookup [OF assms, of P st] by simp
qed

lemma elon_musk_lookup:
  "py_strip ''Elon Musk?'' \<noteq> []"
  "quick_reply (py_lower (py_strip ''Elon Musk?'')) = None"
  "find_best_local_answer (py_strip ''Elon Musk?'') QA_KB FUZZY_CUTOFF
   = Inr (Some ''who is elon musk'',
          Some ''Elon Musk is an entrepreneur and CEO of Tesla and SpaceX, among other ventures.'',
          18 / 25)"
  by code_simp+

theorem local_answer_marked_below_threshold_witness:
  "chatbot_reply QA_KB offline ''Elon Musk?'' ((), []) =
     (Inr ''(Local) Elon Musk is an entrepreneur and CEO of Tesla and SpaceX, among other ventures.'',
      ((), []))"
  using local_answer_marked_below_threshold [OF elon_musk_lookup, of offline "((), [])"]
  by simp

lemma no_match_falls_through:
  assumes "py_strip raw_input \<noteq> []" and "quick_reply (py_lower (py_strip raw_input)) = None"
    and "find_best_local_answer (py_strip raw_input) kb FUZZY_CUTOFF = Inr (None, None, 0)"
  shows "chatbot_reply kb P raw_input st = wikipedia_fallback P (py_strip raw_input) st"
  using chatbot_reply_lookup [OF assms, of P st] by simp

lemma format_summary_not_empty: "format_summary title text \<noteq> []"
  by (simp add: format_summary_def)

lemma wikipedia_fallback_result:
  "\<exists>wiki_ans st1. fetch_wikipedia_summary P user_input WIKI_SENTENCES st = (Inr wiki_ans, st1)
     \<and> wikipedia_fallback P user_input st =
         (Inr (case wiki_ans of
                 Some text \<Rightarrow> text
               | None \<Rightarrow> ''Sorry, I couldn't find an answer. Try rephrasing or ask something else.''),
          st1)"
proof -
  obtain wiki_ans st1
    where fetch: "fetch_wikipedia_summary P user_input WIKI_SENTENCES st = (Inr wiki_ans, st1)"
      and shape: "wiki_ans = None \<or> (\<exists>title text. wiki_ans = Some (format_summary title text))"
    using fetch_wikipedia_summary_returns by blast
  from shape have "wikipedia_fallback P user_input st =
      (Inr (case wiki_ans of
              Some text \<Rightarrow> text
            | None \<Rightarrow> ''Sorry, I couldn't find an answer. Try rephrasing or ask something else.''),
       st1)"
    unfolding wikipedia_fallback_def fetch
    by (auto simp: format_summary_not_empty reply_fallback_def)
  with fetch show ?thesis
    by blast
qed

text \<open>
  Claim C10. For every knowledge base, every provider and every input that is not empty
  after trimming and matches no quick-reply rule, if \<open>find_best_local_answer\<close> returns a
  key whose stored answer is the empty string, then the reply does not come from the
  knowledge base, whatever the score is: \<open>chatbot_reply\<close> calls \<open>fetch_wikipedia_summary\<close>
  on the trimmed input, and it returns the summary that the call gives, or the generic
  reply when the call gives \<open>None\<close>.
\<close>

theorem empty_answer_falls_through:
  assumes "py_strip raw_input \<noteq> []" and "quick_reply (py_lower (py_strip raw_input)) = None"
    and "find_best_local_answer (py_strip raw_input) kb FUZZY_CUTOFF = Inr (Some key, Some [], score)"
  shows "\<exists>wiki_ans st1.
      fetch_wikipedia_summary P (py_strip raw_input) WIKI_SENTENCES st = (Inr wiki_ans, st1)
      \<and> chatbot_reply kb P raw_input st =
          (Inr (case wiki_ans of
                  Some text \<Rightarrow> text
                | None \<Rightarrow> ''Sorry, I couldn't find an answer. Try rephrasing or ask something else.''),
           st1)"
proof -
  have "chatbot_reply kb P raw_input st = wikipedia_fallback P (py_strip raw_input) st"
    using chatbot_reply_lookup [OF assms, of P st] by simp
  then show ?thesis
    using wikipedia_fallback_result [of P "py_strip raw_input" st] by simp
qed

lemma empty_answer_lookup:
  "py_strip ''mercury'' \<noteq> []"
  "quick_reply (py_lower (py_strip ''mercury'')) = None"
  "find_best_local_answer (py_strip ''mercury'') [(''mercury'', [])] FUZZY_CUTOFF
   = Inr (Some ''mercury'', Some [], 1)"
  by code_simp+

lemma ambiguous_fetch:
  "fetch_wikipedia_summary ambiguous (py_strip ''mercury'') WIKI_SENTENCES (0, []) =
     (Inr (Some (''According to Wikipedia (Mercury (planet)):'' @ [CHR 0x0A]
                 @ ''Mercury is a planet.'')),
      (3, [Search ''mercury'' 5, Summary ''Mercury'' 2 False True,
           Summary ''Mercury (planet)'' 2 False True]))"
  by code_simp

lemma offline_fetch:
  "fetch_wikipedia_summary offline (py_strip ''mercury'') WIKI_SENTENCES ((), []) =
     (Inr None, ((), [Search ''mercury'' 5]))"
  by code_simp

theorem empty_answer_falls_through_witness:
  "find_best_local_answer (py_strip ''mercury'') [(''mercury'', [])] FUZZY_CUTOFF
     = Inr (Some ''mercury'', Some [], 1)
   \<and> chatbot_reply [(''mercury'', [])] ambiguous ''mercury'' (0, []) =
       (Inr (''According to Wikipedia (Mercury (planet)):'' @ [CHR 0x0A]
             @ ''Mercury is a planet.''),
        (3, [Search ''mercury'' 5, Summary ''Mercury'' 2 False True,
             Summary ''Mercury (planet)'' 2 False True]))
   \<and> chatbot_reply [(''mercury'', [])] offline ''mercury'' ((), []) =
       (Inr ''Sorry, I couldn't find an answer. Try rephrasing or ask something else.'',
        ((), [Search ''mercury'' 5]))"
proof -
  have answered: "chatbot_reply [(''mercury'', [])] ambiguous ''mercury'' (0, []) =
       (Inr (''According to Wikipedia (Mercury (planet)):'' @ [CHR 0x0A]
             @ ''Mercury is a planet.''),
        (3, [Search ''mercury'' 5, Summary ''Mercury'' 2 False True,
             Summary ''Mercury (planet)'' 2 False True]))"
    using empty_answer_falls_through [OF empty_answer_lookup, of ambiguous "(0, [])"]
    unfolding ambiguous_fetch by auto
  have failed: "chatbot_reply [(''mercury'', [])] offline ''mercury'' ((), []) =
       (Inr ''Sorry, I couldn't find an answer. Try rephrasing or ask something else.'',
        ((), [Search ''mercury'' 5]))"
    using empty_answer_falls_through [OF empty_answer_lookup, of offline "((), [])"]
    unfolding offline_fetch by auto
  from empty_answer_lookup(3) answered failed show ?thesis
    by (intro conjI)
qed

section \<open>Exact matches\<close>

subsection \<open>The index of the second sequence\<close>

definition positions :: "string \<Rightarrow> char \<Rightarrow> nat list" where
  "positions b c = filter (\<lambda>j. b ! j = c) [0..<length b]"

lemma chain_b_index_positions:
  "m = i + length b \<Longrightarrow>
   chain_b_index i b f c = f c @ filter (\<lambda>j. b ! (j - i) = c) [i..<m]"
proof (induction b arbitrary: i f)
  case Nil
  then show ?case by simp
next
  case (Cons e rest)
  have shift: "filter (\<lambda>j. (e # rest) ! (j - i) = c) [Suc i..<m]
      = filter (\<lambda>j. rest ! (j - Suc i) = c) [Suc i..<m]"
  proof (rule filter_cong [OF refl])
    fix j
    assume "j \<in> set [Suc i..<m]"
    then have "j - i = Suc (j - Suc i)"
      by auto
    then show "((e # rest) ! (j - i) = c) = (rest ! (j - Suc i) = c)"
      by simp
  qed
  have "i < m"
    using Cons.prems by simp
  then have "[i..<m] = i # [Suc i..<m]"
    by (rule upt_conv_Cons)
  then have "filter (\<lambda>j. (e # rest) ! (j - i) = c) [i..<m]
      = filter (\<lambda>j. (e # rest) ! (j - i) = c) (i # [Suc i..<m])"
    by (rule arg_cong)
  also have "\<dots> = (if e = c then [i] else []) @ filter (\<lambda>j. (e # rest) ! (j - i) = c) [Suc i..<m]"
    by simp
  finally have eq: "filter (\<lambda>j. (e # rest) ! (j - i) = c) [i..<m]
      = (if e = c then [i] else []) @ filter (\<lambda>j. rest ! (j - Suc i) = c) [Suc i..<m]"
    unfolding shift .
  have "m = Suc i + length rest"
    using Cons.prems by simp
  then have ih: "chain_b_index (Suc i) rest (f(e := f e @ [i])) c
      = (f(e := f e @ [i])) c @ filter (\<lambda>j. rest ! (j - Suc i) = c) [Suc i..<m]"
    by (rule Cons.IH)
  have "chain_b_index i (e # rest) f c
      = (f(e := f e @ [i])) c @ filter (\<lambda>j. rest ! (j - Suc i) = c) [Suc i..<m]"
    by (simp only: chain_b_index.simps ih)
  also have "\<dots> = f c @ (if e = c then [i] else []) @ filter (\<lambda>j. rest ! (j - Suc i) = c) [Suc i..<m]"
    by simp
  also have "\<dots> = f c @ filter (\<lambda>j. (e # rest) ! (j - i) = c) [i..<m]"
    by (simp only: eq)
  finally show ?case .
qed

lemma chain_b_cases: "chain_b b c = positions b c \<or> chain_b b c = []"
  using chain_b_index_positions [of "length b" 0 b "\<lambda>elt. []" c]
  by (simp add: chain_b_def positions_def Let_def)

lemma chain_b_sound: "j \<in> set (chain_b b c) \<Longrightarrow> b ! j = c"
  using chain_b_cases [of b c] by (auto simp: positions_def)


subsection \<open>Blocks are matches\<close>

definition block_matches :: "string \<Rightarrow> string \<Rightarrow> block \<Rightarrow> bool" where
  "block_matches a b x = (case x of (i, j, k) \<Rightarrow> \<forall>t<k. a ! (i + t) = b ! (j + t))"

definition row_matches :: "string \<Rightarrow> string \<Rightarrow> nat \<Rightarrow> (nat \<Rightarrow> nat) \<Rightarrow> bool" where
  "row_matches a b i f = (\<forall>j t. t < f j \<longrightarrow> a ! (i - t) = b ! (j - t))"

lemma row_matches_zero: "row_matches a b i (\<lambda>j. 0)"
  by (simp add: row_matches_def)

lemma match_row_matches:
  assumes "alo \<le> i" and "row_ok blo bhi (i - alo) j2len" and "row_matches a b (i - 1) j2len"
    and "\<forall>j \<in> set js. b ! j = a ! i"
    and "row_matches a b i newj2len" and "block_matches a b best"
    and "match_row blo bhi i j2len js (newj2len, best) = (row, best')"
  shows "row_matches a b i row \<and> block_matches a b best'"
  using assms(4-7)
proof (induction js arbitrary: newj2len best)
  case Nil
  then show ?case by simp
next
  case (Cons j js)
  obtain besti bestj bestsize where best: "best = (besti, bestj, bestsize)"
    by (cases best) auto
  show ?case
  proof (cases "j < blo \<or> j \<ge> bhi")
    case True
    with Cons best show ?thesis by (auto split: if_splits)
  next
    case False
    define k where "k = (if j = 0 then 0 else j2len (j - 1)) + 1"
    have k1: "k \<le> i + 1 - alo"
      using assms(1,2) unfolding k_def row_ok_def
      by (cases "j = 0") (auto simp: le_diff_conv Suc_diff_le dest: spec [of _ "j - 1"])
    have k2: "k \<le> j + 1"
    proof (cases "j = 0 \<or> j2len (j - 1) = 0")
      case True
      then show ?thesis unfolding k_def by auto
    next
      case F: False
      with assms(2) have "j2len (j - 1) \<le> j - 1 + 1 - blo"
        unfolding row_ok_def by blast
      with F show ?thesis unfolding k_def by auto
    qed
    have here: "a ! i = b ! j"
      using Cons.prems(1) by simp
    have suffix: "a ! (i - t) = b ! (j - t)" if "t < k" for t
    proof (cases t)
      case 0
      with here show ?thesis by simp
    next
      case (Suc u)
      with that have "j \<noteq> 0" and u: "u < j2len (j - 1)"
        unfolding k_def by (auto split: if_splits)
      from u assms(3) have "a ! (i - 1 - u) = b ! (j - 1 - u)"
        unfolding row_matches_def by blast
      with Suc show ?thesis by simp
    qed
    have row': "row_matches a b i (newj2len(j := k))"
      using Cons.prems(2) suffix unfolding row_matches_def by auto
    have "a ! (i + 1 - k + t) = b ! (j + 1 - k + t)" if "t < k" for t
    proof -
      from that have "k - 1 - t < k" by simp
      then have "a ! (i - (k - 1 - t)) = b ! (j - (k - 1 - t))"
        by (rule suffix)
      moreover have "i - (k - 1 - t) = i + 1 - k + t"
        using that k1 assms(1) by arith
      moreover have "j - (k - 1 - t) = j + 1 - k + t"
        using that k2 by arith
      ultimately show ?thesis by (simp only:)
    qed
    then have "block_matches a b (i + 1 - k, j + 1 - k, k)"
      by (simp add: block_matches_def)
    then have best': "block_matches a b
        (if k > bestsize then (i + 1 - k, j + 1 - k, k) else (besti, bestj, bestsize))"
      using Cons.prems(3) unfolding best by simp
    have "match_row blo bhi i j2len js
        (newj2len(j := k), if k > bestsize then (i + 1 - k, j + 1 - k, k) else (besti, bestj, bestsize))
        = (row, best')"
      using Cons.prems(4) False match_row_step [of j blo bhi k j2len i js newj2len besti bestj bestsize]
      unfolding best k_def by simp
    moreover have "\<forall>j \<in> set js. b ! j = a ! i"
      using Cons.prems(1) by simp
    ultimately show ?thesis
      using Cons.IH row' best' by blast
  qed
qed

lemma match_rows_matches:
  assumes "\<forall>c. \<forall>j \<in> set (b2j c). b ! j = c"
    and "alo \<le> i" and "row_ok blo bhi (i - alo) j2len" and "row_matches a b (i - 1) j2len"
    and "block_matches a b best" and "best_ok alo ahi blo bhi best"
  shows "block_matches a b (match_rows a b2j blo bhi [i..<ahi] (j2len, best))"
  using assms(2-)
proof (induction "ahi - i" arbitrary: i j2len best)
  case 0
  then show ?case by simp
next
  case (Suc n)
  then have lt: "i < ahi" by simp
  obtain row best' where step:
    "match_row blo bhi i j2len (b2j (a ! i)) ((\<lambda>j. 0), best) = (row, best')"
    by (cases "match_row blo bhi i j2len (b2j (a ! i)) ((\<lambda>j. 0), best)") auto
  have ok: "row_ok blo bhi (i + 1 - alo) row \<and> best_ok alo ahi blo bhi best'"
    by (rule match_row_ok [OF Suc.prems(1) lt Suc.prems(2) row_ok_zero Suc.prems(5) step])
  have sound: "\<forall>j \<in> set (b2j (a ! i)). b ! j = a ! i"
    using assms(1) by blast
  have m: "row_matches a b i row \<and> block_matches a b best'"
    by (rule match_row_matches [OF Suc.prems(1,2,3) sound row_matches_zero Suc.prems(4) step])
  have "block_matches a b (match_rows a b2j blo bhi [Suc i..<ahi] (row, best'))"
  proof (rule Suc.hyps(1))
    show "n = ahi - Suc i" using Suc.hyps(2) by simp
    show "alo \<le> Suc i" using Suc.prems(1) by simp
    show "row_ok blo bhi (Suc i - alo) row" using ok by simp
    show "row_matches a b (Suc i - 1) row" using m by simp
    show "block_matches a b best'" using m by simp
    show "best_ok alo ahi blo bhi best'" using ok by simp
  qed
  then show ?case using lt step by (simp add: upt_conv_Cons)
qed

lemma extend_back_matches:
  "block_matches a b best \<Longrightarrow> block_matches a b (extend_back a b ok alo blo best)"
proof (induction a b ok alo blo best rule: extend_back.induct)
  case (1 a b ok alo blo besti bestj bestsize)
  show ?case
  proof (cases "besti > alo \<and> bestj > blo \<and> ok (b ! (bestj - 1)) \<and> a ! (besti - 1) = b ! (bestj - 1)")
    case True
    have "block_matches a b (besti - 1, bestj - 1, bestsize + 1)"
      unfolding block_matches_def
    proof (clarsimp)
      fix t assume "t < Suc bestsize"
      then show "a ! (besti - Suc 0 + t) = b ! (bestj - Suc 0 + t)"
        using True "1.prems" by (cases t) (auto simp: block_matches_def)
    qed
    with "1.IH" True show ?thesis by (subst extend_back.simps) simp
  next
    case False
    with "1.prems" show ?thesis by (subst extend_back.simps) auto
  qed
qed

lemma extend_forward_matches:
  "block_matches a b best \<Longrightarrow> block_matches a b (extend_forward a b ok ahi bhi best)"
proof (induction a b ok ahi bhi best rule: extend_forward.induct)
  case (1 a b ok ahi bhi besti bestj bestsize)
  show ?case
  proof (cases "besti + bestsize < ahi \<and> bestj + bestsize < bhi \<and> ok (b ! (bestj + bestsize))
         \<and> a ! (besti + bestsize) = b ! (bestj + bestsize)")
    case True
    have "block_matches a b (besti, bestj, bestsize + 1)"
      using True "1.prems" by (auto simp: block_matches_def less_Suc_eq)
    with "1.IH" True show ?thesis by (subst extend_forward.simps) simp
  next
    case False
    with "1.prems" show ?thesis by (subst extend_forward.simps) auto
  qed
qed

lemma find_longest_match_matches:
  assumes "\<forall>c. \<forall>j \<in> set (b2j c). b ! j = c"
  shows "block_matches a b (find_longest_match a b b2j alo ahi blo bhi)"
proof -
  have "block_matches a b (match_rows a b2j blo bhi [alo..<ahi] ((\<lambda>j. 0), (alo, blo, 0)))"
    by (rule match_rows_matches [OF assms, where alo = alo and ahi = ahi])
      (simp_all add: row_ok_zero row_matches_zero block_matches_def best_ok_def)
  then show ?thesis
    unfolding find_longest_match_def Let_def
    by (intro extend_forward_matches extend_back_matches)
qed


subsection \<open>The number of matched characters\<close>

definition blocks_sum :: "block list \<Rightarrow> nat" where
  "blocks_sum xs = sum_list (map (\<lambda>triple. snd (snd triple)) xs)"

lemma blocks_sum_append: "blocks_sum (xs @ ys) = blocks_sum xs + blocks_sum ys"
  by (simp add: blocks_sum_def)

lemma loop_accumulates:
  "matching_blocks_loop a b b2j queue (acc1 @ acc2)
   = acc1 @ matching_blocks_loop a b b2j queue acc2"
proof (induction a b b2j queue acc2 arbitrary: acc1 rule: matching_blocks_loop.induct)
  case (1 a b b2j matching_blocks)
  show ?case by (simp add: matching_blocks_loop.simps)
next
  case (2 a b b2j alo ahi blo bhi queue matching_blocks)
  define x where "x = find_longest_match a b b2j alo ahi blo bhi"
  show ?case
  proof (cases "snd (snd x) \<noteq> 0")
    case True
    have "matching_blocks_loop a b b2j (pushed (alo, ahi, blo, bhi) x @ queue)
            (acc1 @ (matching_blocks @ [x]))
        = acc1 @ matching_blocks_loop a b b2j (pushed (alo, ahi, blo, bhi) x @ queue)
            (matching_blocks @ [x])"
      using "2.IH"(1) [OF x_def True] .
    with True show ?thesis
      by (simp add: matching_blocks_loop.simps(2) x_def [symmetric])
  next
    case False
    have "matching_blocks_loop a b b2j queue (acc1 @ matching_blocks)
        = acc1 @ matching_blocks_loop a b b2j queue matching_blocks"
      using "2.IH"(2) [OF x_def False] .
    with False show ?thesis
      by (simp add: matching_blocks_loop.simps(2) x_def [symmetric])
  qed
qed

lemma loop_append:
  "matching_blocks_loop a b b2j (q1 @ q2) acc
   = matching_blocks_loop a b b2j q2 (matching_blocks_loop a b b2j q1 acc)"
proof (induction a b b2j q1 acc rule: matching_blocks_loop.induct)
  case (1 a b b2j matching_blocks)
  show ?case by (simp add: matching_blocks_loop.simps)
next
  case (2 a b b2j alo ahi blo bhi queue matching_blocks)
  define x where "x = find_longest_match a b b2j alo ahi blo bhi"
  show ?case
  proof (cases "snd (snd x) \<noteq> 0")
    case True
    from "2.IH"(1) [OF x_def True] True show ?thesis
      by (simp add: matching_blocks_loop.simps(2) x_def [symmetric])
  next
    case False
    from "2.IH"(2) [OF x_def False] False show ?thesis
      by (simp add: matching_blocks_loop.simps(2) x_def [symmetric])
  qed
qed

definition window_total :: "string \<Rightarrow> string \<Rightarrow> (char \<Rightarrow> nat list) \<Rightarrow> window \<Rightarrow> nat" where
  "window_total a b b2j w = blocks_sum (matching_blocks_loop a b b2j [w] [])"

lemma loop_total:
  "blocks_sum (matching_blocks_loop a b b2j queue []) = sum_list (map (window_total a b b2j) queue)"
proof (induction queue)
  case Nil
  show ?case by (simp add: matching_blocks_loop.simps blocks_sum_def)
next
  case (Cons w queue)
  have "matching_blocks_loop a b b2j (w # queue) []
      = matching_blocks_loop a b b2j queue (matching_blocks_loop a b b2j [w] [] @ [])"
    using loop_append [of a b b2j "[w]" queue "[]"] by simp
  also have "\<dots> = matching_blocks_loop a b b2j [w] [] @ matching_blocks_loop a b b2j queue []"
    by (rule loop_accumulates)
  finally show ?case
    using Cons by (simp add: blocks_sum_append window_total_def)
qed

lemma window_total_unfold:
  assumes "find_longest_match a b b2j alo ahi blo bhi = (i, j, k)"
  shows "window_total a b b2j (alo, ahi, blo, bhi) =
     (if k \<noteq> 0
      then k + sum_list (map (window_total a b b2j) (pushed (alo, ahi, blo, bhi) (i, j, k)))
      else 0)"
proof (cases "k = 0")
  case True
  with assms show ?thesis
    by (simp add: window_total_def matching_blocks_loop.simps blocks_sum_def)
next
  case False
  have "matching_blocks_loop a b b2j [(alo, ahi, blo, bhi)] []
      = matching_blocks_loop a b b2j (pushed (alo, ahi, blo, bhi) (i, j, k)) ([(i, j, k)] @ [])"
    using assms False by (simp add: matching_blocks_loop.simps(2) Let_def)
  also have "\<dots> = [(i, j, k)] @ matching_blocks_loop a b b2j (pushed (alo, ahi, blo, bhi) (i, j, k)) []"
    by (rule loop_accumulates)
  finally have "window_total a b b2j (alo, ahi, blo, bhi)
      = blocks_sum [(i, j, k)]
        + blocks_sum (matching_blocks_loop a b b2j (pushed (alo, ahi, blo, bhi) (i, j, k)) [])"
    by (simp only: window_total_def blocks_sum_append)
  also have "blocks_sum [(i, j, k)] = k"
    by (simp add: blocks_sum_def)
  finally show ?thesis
    using False by (simp add: loop_total)
qed

lemma window_total_bound:
  assumes "\<forall>c. \<forall>j \<in> set (b2j c). b ! j = c"
  shows "window_total a b b2j (alo, ahi, blo, bhi) \<le> ahi - alo
     \<and> window_total a b b2j (alo, ahi, blo, bhi) \<le> bhi - blo
     \<and> (window_total a b b2j (alo, ahi, blo, bhi) = ahi - alo
          \<and> window_total a b b2j (alo, ahi, blo, bhi) = bhi - blo
        \<longrightarrow> (\<forall>t < ahi - alo. a ! (alo + t) = b ! (blo + t)))"
proof (induction "ahi - alo" arbitrary: alo ahi blo bhi rule: less_induct)
  case less
  obtain i j k where x: "find_longest_match a b b2j alo ahi blo bhi = (i, j, k)"
    by (cases "find_longest_match a b b2j alo ahi blo bhi") auto
  note unfold = window_total_unfold [OF x]
  show ?case
  proof (cases "k = 0")
    case True
    with unfold show ?thesis by simp
  next
    case False
    note bounds = find_longest_match_bounds(1-4) [OF x]
    from bounds False have b: "alo \<le> i" "blo \<le> j" "i + k \<le> ahi" "j + k \<le> bhi"
      by simp_all
    have m: "\<forall>t<k. a ! (i + t) = b ! (j + t)"
      using find_longest_match_matches [OF assms, of a alo ahi blo bhi] x
      by (simp add: block_matches_def)
    define tr where "tr = (if i + k < ahi \<and> j + k < bhi
        then window_total a b b2j (i + k, ahi, j + k, bhi) else 0)"
    define tl where "tl = (if alo < i \<and> blo < j
        then window_total a b b2j (alo, i, blo, j) else 0)"
    have total: "window_total a b b2j (alo, ahi, blo, bhi) = k + tr + tl"
      using unfold False by (auto simp: pushed_def tr_def tl_def)
    have right: "tr \<le> ahi - (i + k) \<and> tr \<le> bhi - (j + k)
        \<and> (tr = ahi - (i + k) \<and> tr = bhi - (j + k)
             \<longrightarrow> (\<forall>t < ahi - (i + k). a ! (i + k + t) = b ! (j + k + t)))"
    proof (cases "i + k < ahi \<and> j + k < bhi")
      case True
      have "ahi - (i + k) < ahi - alo"
        using b False by arith
      from less [OF this, of "j + k" bhi] True show ?thesis
        by (simp add: tr_def)
    next
      case F: False
      then have "tr = 0" by (simp only: tr_def if_False)
      then show ?thesis by auto
    qed
    have left: "tl \<le> i - alo \<and> tl \<le> j - blo
        \<and> (tl = i - alo \<and> tl = j - blo \<longrightarrow> (\<forall>t < i - alo. a ! (alo + t) = b ! (blo + t)))"
    proof (cases "alo < i \<and> blo < j")
      case True
      have "i - alo < ahi - alo"
        using b False by arith
      from less [OF this, of blo j] True show ?thesis
        by (simp add: tl_def)
    next
      case F: False
      then have "tl = 0" by (simp only: tl_def if_False)
      then show ?thesis by auto
    qed
    from right have r: "tr \<le> ahi - (i + k)" "tr \<le> bhi - (j + k)"
      by simp_all
    from left have l: "tl \<le> i - alo" "tl \<le> j - blo"
      by simp_all
    have le_a: "window_total a b b2j (alo, ahi, blo, bhi) \<le> ahi - alo"
      using total r l b by linarith
    have le_b: "window_total a b b2j (alo, ahi, blo, bhi) \<le> bhi - blo"
      using total r l b by linarith
    have eq: "\<forall>t < ahi - alo. a ! (alo + t) = b ! (blo + t)"
      if full: "window_total a b b2j (alo, ahi, blo, bhi) = ahi - alo"
        "window_total a b b2j (alo, ahi, blo, bhi) = bhi - blo"
    proof (intro allI impI)
      fix t assume t: "t < ahi - alo"
      have tl_eq: "tl = i - alo" "tl = j - blo"
        using full total r l b by linarith+
      have tr_eq: "tr = ahi - (i + k)" "tr = bhi - (j + k)"
        using full total r l b by linarith+
      have diag: "i - alo = j - blo"
        using tl_eq by simp
      consider "t < i - alo" | "i - alo \<le> t" "t < i - alo + k" | "i - alo + k \<le> t"
        by arith
      then show "a ! (alo + t) = b ! (blo + t)"
      proof cases
        case 1
        with left tl_eq show ?thesis by blast
      next
        case 2
        then have "t - (i - alo) < k" by linarith
        with m have "a ! (i + (t - (i - alo))) = b ! (j + (t - (i - alo)))"
          by blast
        moreover have "i + (t - (i - alo)) = alo + t"
          using 2 b by linarith
        moreover have "j + (t - (i - alo)) = blo + t"
          using 2 b diag by linarith
        ultimately show ?thesis by (simp only:)
      next
        case 3
        then have "t - (i - alo + k) < ahi - (i + k)"
          using t b by linarith
        with right tr_eq
        have "a ! (i + k + (t - (i - alo + k))) = b ! (j + k + (t - (i - alo + k)))"
          by blast
        moreover have "i + k + (t - (i - alo + k)) = alo + t"
          using 3 b by linarith
        moreover have "j + k + (t - (i - alo + k)) = blo + t"
          using 3 b diag by linarith
        ultimately show ?thesis by (simp only:)
      qed
    qed
    from le_a le_b eq show ?thesis by blast
  qed
qed


lemma blocks_sum_collapse:
  "blocks_sum (collapse_adjacent xs (i1, j1, k1) non_adjacent)
   = blocks_sum non_adjacent + k1 + blocks_sum xs"
proof (induction xs arbitrary: i1 j1 k1 non_adjacent)
  case Nil
  show ?case by (simp add: blocks_sum_def)
next
  case (Cons x xs)
  obtain i2 j2 k2 where x: "x = (i2, j2, k2)" by (cases x) auto
  show ?case
    unfolding x by (simp add: Cons.IH) (simp add: blocks_sum_def)
qed

lemma blocks_sum_sort: "blocks_sum (sort xs) = blocks_sum xs"
proof -
  have "sum_mset (image_mset (\<lambda>triple. snd (snd triple)) (mset (sort xs)))
      = sum_mset (image_mset (\<lambda>triple. snd (snd triple)) (mset xs))"
    by simp
  then show ?thesis
    unfolding blocks_sum_def mset_map [symmetric] sum_mset_sum_list .
qed

lemma matches_total_window:
  "matches_total a b = window_total a b (chain_b b) (0, length a, 0, length b)"
  by (simp add: matches_total_def get_matching_blocks_def Let_def blocks_sum_def [symmetric]
      blocks_sum_append blocks_sum_collapse blocks_sum_sort window_total_def)
    (simp add: blocks_sum_def)

lemma matches_total_le: "matches_total a b \<le> length a" "matches_total a b \<le> length b"
  using window_total_bound [of "chain_b b" b a 0 "length a" 0 "length b"] chain_b_sound
  by (simp_all add: matches_total_window)

lemma matches_total_full:
  assumes "matches_total a b = length a" and "matches_total a b = length b"
  shows "a = b"
proof (rule nth_equalityI)
  show "length a = length b"
    using assms by simp
  fix t assume "t < length a"
  then show "a ! t = b ! t"
    using window_total_bound [of "chain_b b" b a 0 "length a" 0 "length b"] chain_b_sound assms
    by (simp add: matches_total_window)
qed

lemma calculate_ratio_le_one:
  assumes "2 * m \<le> n"
  shows "calculate_ratio m n \<le> 1"
proof (cases "n = 0")
  case True
  then show ?thesis by (simp add: calculate_ratio_def)
next
  case False
  then have pos: "(0 :: rat) < of_nat n"
    by simp
  have "(of_nat (2 * m) :: rat) \<le> of_nat n"
    using assms by (simp only: of_nat_le_iff)
  then have "2 * (of_nat m :: rat) \<le> of_nat n"
    by simp
  with pos have "2 * (of_nat m :: rat) / of_nat n \<le> 1"
    by (simp only: divide_le_eq_1_pos)
  with False show ?thesis
    by (simp add: calculate_ratio_def)
qed

lemma calculate_ratio_one:
  assumes "calculate_ratio m n = 1" and "n \<noteq> 0"
  shows "2 * m = n"
proof -
  from assms have "2 * (of_nat m :: rat) / of_nat n = 1"
    by (simp add: calculate_ratio_def)
  then have "2 * (of_nat m :: rat) = of_nat n"
    using assms(2) by (simp add: divide_eq_eq)
  then have "(of_nat (2 * m) :: rat) = of_nat n"
    by simp
  then show ?thesis
    by (simp only: of_nat_eq_iff)
qed

lemma calculate_ratio_full: "calculate_ratio n (n + n) = 1"
  by (simp add: calculate_ratio_def)

lemma ratio_le_one: "ratio a b \<le> 1"
  unfolding ratio_def using matches_total_le [of a b]
  by (intro calculate_ratio_le_one) linarith

lemma ratio_one_equal:
  assumes "ratio a b = 1"
  shows "a = b"
proof (cases "length a + length b = 0")
  case True
  then show ?thesis by simp
next
  case False
  with assms have "2 * matches_total a b = length a + length b"
    unfolding ratio_def by (rule calculate_ratio_one)
  with matches_total_le [of a b] have "matches_total a b = length a" "matches_total a b = length b"
    by linarith+
  then show ?thesis
    by (rule matches_total_full)
qed


subsection \<open>A sequence against itself\<close>

text \<open>
  When both sequences are the same string, the longest match found by the rows lies on
  the diagonal, and the extension loops stretch it over the whole string.
\<close>

definition cell :: "(nat \<Rightarrow> nat) \<Rightarrow> nat \<Rightarrow> nat" where
  "cell j2len j = (if j = 0 then 0 else j2len (j - 1)) + 1"

lemma match_row_diagonal:
  assumes "sorted js" and "\<forall>j \<in> set js. j < bhi"
    and "\<forall>j \<in> set js. cell j2len j \<le> K"
    and "\<forall>j \<in> set js. j < i \<longrightarrow> cell j2len j \<le> bestsize"
    and "i \<notin> set js \<longrightarrow> K \<le> bestsize"
    and "cell j2len i = K"
    and "match_row 0 bhi i j2len js (newj2len, (d, d, bestsize)) = (row, best')"
  shows "\<exists>d' size'. best' = (d', d', size') \<and> K \<le> size' \<and> bestsize \<le> size'
      \<and> row = (\<lambda>j. if j \<in> set js then cell j2len j else newj2len j)"
  using assms(1-5,7)
proof (induction js arbitrary: newj2len d bestsize)
  case Nil
  then show ?case by auto
next
  case (Cons j js)
  define k where "k = cell j2len j"
  have kK: "k \<le> K"
    using Cons.prems(3) by (simp add: k_def)
  have step: "match_row 0 bhi i j2len (j # js) (newj2len, (d, d, bestsize)) =
      match_row 0 bhi i j2len js
        (newj2len(j := k), if k > bestsize then (i + 1 - k, j + 1 - k, k) else (d, d, bestsize))"
    using Cons.prems(2) by (intro match_row_step) (simp_all add: k_def cell_def)
  have sorted: "sorted js" and below: "\<forall>j \<in> set js. j < bhi"
    and cells: "\<forall>j \<in> set js. cell j2len j \<le> K"
    using Cons.prems(1,2,3) by simp_all
  have row_eq: "(\<lambda>j'. if j' \<in> set js then cell j2len j' else (newj2len(j := k)) j')
      = (\<lambda>j'. if j' \<in> set (j # js) then cell j2len j' else newj2len j')"
    by (rule ext) (simp add: k_def)
  consider "j < i" | "j = i" | "i < j" by arith
  then show ?case
  proof cases
    case 1
    then have "k \<le> bestsize"
      using Cons.prems(4) by (simp add: k_def)
    then have run: "match_row 0 bhi i j2len js (newj2len(j := k), (d, d, bestsize)) = (row, best')"
      using Cons.prems(6) step by simp
    have "\<exists>d' size'. best' = (d', d', size') \<and> K \<le> size' \<and> bestsize \<le> size'
        \<and> row = (\<lambda>j'. if j' \<in> set js then cell j2len j' else (newj2len(j := k)) j')"
    proof (rule Cons.IH [OF sorted below cells _ _ run])
      show "\<forall>j \<in> set js. j < i \<longrightarrow> cell j2len j \<le> bestsize"
        using Cons.prems(4) by simp
      show "i \<notin> set js \<longrightarrow> K \<le> bestsize"
        using Cons.prems(5) 1 by simp
    qed
    then show ?thesis
      unfolding row_eq .
  next
    case 2
    then have kK': "k = K"
      using assms(6) by (simp add: k_def)
    define size2 where "size2 = max k bestsize"
    obtain d2 where run: "match_row 0 bhi i j2len js (newj2len(j := k), (d2, d2, size2)) = (row, best')"
    proof (cases "k > bestsize")
      case True
      with Cons.prems(6) step 2 have
        "match_row 0 bhi i j2len js (newj2len(j := k), (i + 1 - k, i + 1 - k, size2)) = (row, best')"
        by (simp add: size2_def max_def)
      then show ?thesis by (rule that)
    next
      case False
      with Cons.prems(6) step have
        "match_row 0 bhi i j2len js (newj2len(j := k), (d, d, size2)) = (row, best')"
        by (simp add: size2_def max_def)
      then show ?thesis by (rule that)
    qed
    have "\<exists>d' size'. best' = (d', d', size') \<and> K \<le> size' \<and> size2 \<le> size'
        \<and> row = (\<lambda>j'. if j' \<in> set js then cell j2len j' else (newj2len(j := k)) j')"
    proof (rule Cons.IH [OF sorted below cells _ _ run])
      show "\<forall>j \<in> set js. j < i \<longrightarrow> cell j2len j \<le> size2"
        using Cons.prems(4) by (auto simp: size2_def)
      show "i \<notin> set js \<longrightarrow> K \<le> size2"
        using kK' by (simp add: size2_def)
    qed
    then show ?thesis
      unfolding row_eq by (auto simp: size2_def)
  next
    case 3
    have "i \<notin> set (j # js)"
      using 3 Cons.prems(1) by auto
    then have "K \<le> bestsize"
      using Cons.prems(5) by blast
    with kK have "k \<le> bestsize" by simp
    then have run: "match_row 0 bhi i j2len js (newj2len(j := k), (d, d, bestsize)) = (row, best')"
      using Cons.prems(6) step by simp
    have "\<exists>d' size'. best' = (d', d', size') \<and> K \<le> size' \<and> bestsize \<le> size'
        \<and> row = (\<lambda>j'. if j' \<in> set js then cell j2len j' else (newj2len(j := k)) j')"
    proof (rule Cons.IH [OF sorted below cells _ _ run])
      show "\<forall>j \<in> set js. j < i \<longrightarrow> cell j2len j \<le> bestsize"
        using Cons.prems(4) by simp
      show "i \<notin> set js \<longrightarrow> K \<le> bestsize"
        using \<open>K \<le> bestsize\<close> by simp
    qed
    then show ?thesis
      unfolding row_eq .
  qed
qed


lemma sorted_positions: "sorted (positions s c)"
  unfolding positions_def by (rule sorted_wrt_filter) simp

lemma set_positions: "set (positions s c) = {j. j < length s \<and> s ! j = c}"
  by (auto simp: positions_def)

text \<open>The length of the run of indexed characters that ends at position \<open>i\<close>.\<close>

fun diag_run :: "string \<Rightarrow> (char \<Rightarrow> nat list) \<Rightarrow> nat \<Rightarrow> nat" where
  "diag_run s b2j 0 = (if b2j (s ! 0) = [] then 0 else 1)"
| "diag_run s b2j (Suc i) = (if b2j (s ! Suc i) = [] then 0 else diag_run s b2j i + 1)"

definition diag_before :: "string \<Rightarrow> (char \<Rightarrow> nat list) \<Rightarrow> nat \<Rightarrow> nat" where
  "diag_before s b2j i = (if i = 0 then 0 else diag_run s b2j (i - 1))"

lemma diag_run_empty: "b2j (s ! i) = [] \<Longrightarrow> diag_run s b2j i = 0"
  by (cases i) simp_all

lemma diag_run_indexed: "b2j (s ! i) \<noteq> [] \<Longrightarrow> diag_run s b2j i = diag_before s b2j i + 1"
  by (cases i) (simp_all add: diag_before_def)

definition rows_inv :: "string \<Rightarrow> (char \<Rightarrow> nat list) \<Rightarrow> nat \<Rightarrow> (nat \<Rightarrow> nat) \<Rightarrow> nat \<Rightarrow> bool" where
  "rows_inv s b2j i j2len bestsize \<longleftrightarrow>
     (\<forall>j. j2len j \<le> diag_before s b2j i)
     \<and> (\<forall>j. j2len j \<le> diag_run s b2j j)
     \<and> (i \<noteq> 0 \<longrightarrow> j2len (i - 1) = diag_run s b2j (i - 1))
     \<and> (\<forall>j<i. diag_run s b2j j \<le> bestsize)"

lemma cell_le_diag_run:
  assumes "\<forall>j. j2len j \<le> diag_run s b2j j" and "b2j (s ! j) \<noteq> []"
  shows "cell j2len j \<le> diag_run s b2j j"
proof (cases j)
  case 0
  with assms(2) show ?thesis by (simp add: cell_def)
next
  case (Suc j')
  with assms(2) have "diag_run s b2j j = diag_run s b2j j' + 1" by simp
  moreover have "cell j2len j = j2len j' + 1"
    using Suc by (simp add: cell_def)
  ultimately show ?thesis using assms(1) by simp
qed

lemma cell_le_bound: "\<forall>j. j2len j \<le> m \<Longrightarrow> cell j2len j \<le> m + 1"
  by (simp add: cell_def)

lemma cell_on_diagonal:
  "i \<noteq> 0 \<longrightarrow> j2len (i - 1) = diag_run s b2j (i - 1) \<Longrightarrow> cell j2len i = diag_before s b2j i + 1"
  by (simp add: cell_def diag_before_def)

lemma match_rows_diagonal:
  assumes idx: "\<forall>c. b2j c = [] \<or> b2j c = positions s c"
    and "i \<le> length s" and "rows_inv s b2j i j2len bestsize"
  shows "\<exists>d' size'. match_rows s b2j 0 (length s) [i..<length s] (j2len, (d, d, bestsize))
           = (d', d', size')"
  using assms(2,3)
proof (induction "length s - i" arbitrary: i j2len d bestsize)
  case 0
  then show ?case by simp
next
  case (Suc n)
  then have lt: "i < length s" by simp
  have inv1: "\<forall>j. j2len j \<le> diag_before s b2j i"
    and inv2: "\<forall>j. j2len j \<le> diag_run s b2j j"
    and inv3: "i \<noteq> 0 \<longrightarrow> j2len (i - 1) = diag_run s b2j (i - 1)"
    and inv4: "\<forall>j<i. diag_run s b2j j \<le> bestsize"
    using Suc.prems(2) by (simp_all add: rows_inv_def)
  have unfold: "[i..<length s] = i # [Suc i..<length s]"
    using lt by (rule upt_conv_Cons)
  have "\<exists>row d1 size1. match_row 0 (length s) i j2len (b2j (s ! i)) ((\<lambda>j. 0), (d, d, bestsize))
          = (row, (d1, d1, size1)) \<and> rows_inv s b2j (Suc i) row size1"
  proof (cases "b2j (s ! i) = []")
    case True
    then have zero: "diag_run s b2j i = 0"
      by (rule diag_run_empty)
    have "rows_inv s b2j (Suc i) (\<lambda>j. 0) bestsize"
      unfolding rows_inv_def using inv4 zero by (auto simp: diag_before_def less_Suc_eq)
    with True show ?thesis by simp
  next
    case False
    with idx have js: "b2j (s ! i) = positions s (s ! i)" by blast
    let ?js = "positions s (s ! i)"
    let ?K = "diag_run s b2j i"
    have K: "?K = diag_before s b2j i + 1"
      using False by (rule diag_run_indexed)
    have indexed: "b2j (s ! j) \<noteq> []" if "j \<in> set ?js" for j
      using that False by (simp add: set_positions)
    have cell_diag: "cell j2len j \<le> diag_run s b2j j" if "j \<in> set ?js" for j
      using inv2 indexed [OF that] by (rule cell_le_diag_run)
    obtain row best' where run:
      "match_row 0 (length s) i j2len ?js ((\<lambda>j. 0), (d, d, bestsize)) = (row, best')"
      by (cases "match_row 0 (length s) i j2len ?js ((\<lambda>j. 0), (d, d, bestsize))") auto
    have "\<exists>d' size'. best' = (d', d', size') \<and> ?K \<le> size' \<and> bestsize \<le> size'
        \<and> row = (\<lambda>j. if j \<in> set ?js then cell j2len j else (\<lambda>j. 0) j)"
    proof (rule match_row_diagonal [OF sorted_positions _ _ _ _ _ run])
      show "\<forall>j \<in> set ?js. j < length s"
        by (simp add: set_positions)
      show "\<forall>j \<in> set ?js. cell j2len j \<le> ?K"
        using cell_le_bound [of j2len "diag_before s b2j i", OF inv1] K by simp
      show "\<forall>j \<in> set ?js. j < i \<longrightarrow> cell j2len j \<le> bestsize"
        using cell_diag inv4 by (meson le_trans)
      show "i \<notin> set ?js \<longrightarrow> ?K \<le> bestsize"
        using lt by (simp add: set_positions)
      show "cell j2len i = ?K"
        using cell_on_diagonal [of i j2len s b2j, OF inv3] K by simp
    qed
    then obtain d1 size1 where best': "best' = (d1, d1, size1)"
      and size1: "?K \<le> size1" "bestsize \<le> size1"
      and row: "row = (\<lambda>j. if j \<in> set ?js then cell j2len j else 0)"
      by blast
    have here: "i \<in> set ?js"
      using lt by (simp add: set_positions)
    have "rows_inv s b2j (Suc i) row size1"
      unfolding rows_inv_def
    proof (intro conjI allI impI)
      fix j
      have "cell j2len j \<le> ?K"
        using cell_le_bound [of j2len "diag_before s b2j i", OF inv1] K by simp
      then show "row j \<le> diag_before s b2j (Suc i)"
        unfolding row by (simp add: diag_before_def)
      show "row j \<le> diag_run s b2j j"
        using cell_diag unfolding row by auto
    next
      show "row (Suc i - 1) = diag_run s b2j (Suc i - 1)"
        using here cell_on_diagonal [of i j2len s b2j, OF inv3] K unfolding row by simp
    next
      fix j assume "j < Suc i"
      then show "diag_run s b2j j \<le> size1"
        using inv4 size1 by (cases "j = i") (auto simp: less_Suc_eq intro: le_trans)
    qed
    with run best' js show ?thesis by simp
  qed
  then obtain row d1 size1 where
    run: "match_row 0 (length s) i j2len (b2j (s ! i)) ((\<lambda>j. 0), (d, d, bestsize)) = (row, (d1, d1, size1))"
    and inv': "rows_inv s b2j (Suc i) row size1"
    by blast
  have "\<exists>d' size'. match_rows s b2j 0 (length s) [Suc i..<length s] (row, (d1, d1, size1))
           = (d', d', size')"
  proof (rule Suc.hyps(1))
    show "n = length s - Suc i" using Suc.hyps(2) by simp
    show "Suc i \<le> length s" using lt by simp
    show "rows_inv s b2j (Suc i) row size1" by (rule inv')
  qed
  then show ?case
    unfolding unfold by (simp add: run)
qed


lemma extend_back_diagonal:
  assumes "\<forall>c. ok c"
  shows "extend_back s s ok 0 0 (d, d, m) = (0, 0, m + d)"
proof (induction d arbitrary: m)
  case 0
  show ?case by (subst extend_back.simps) simp
next
  case (Suc d)
  have "extend_back s s ok 0 0 (Suc d, Suc d, m) = extend_back s s ok 0 0 (d, d, m + 1)"
    using assms by (subst extend_back.simps) simp
  then show ?case
    using Suc [of "m + 1"] by simp
qed

lemma extend_forward_diagonal:
  assumes "\<forall>c. ok c" and "m \<le> n"
  shows "extend_forward s s ok n n (0, 0, m) = (0, 0, n)"
  using assms(2)
proof (induction "n - m" arbitrary: m)
  case 0
  then show ?case by (subst extend_forward.simps) simp
next
  case (Suc u)
  then have "extend_forward s s ok n n (0, 0, m) = extend_forward s s ok n n (0, 0, m + 1)"
    using assms(1) by (subst extend_forward.simps) simp
  moreover have "extend_forward s s ok n n (0, 0, m + 1) = (0, 0, n)"
    using Suc by (intro Suc.hyps(1)) simp_all
  ultimately show ?case by simp
qed

lemma extend_back_at_corner: "extend_back a b ok alo blo (alo, blo, m) = (alo, blo, m)"
  by (subst extend_back.simps) simp

lemma extend_forward_at_end: "extend_forward a b ok ahi bhi (0, 0, ahi) = (0, 0, ahi)"
  by (subst extend_forward.simps) simp

lemma find_longest_match_self:
  "find_longest_match s s (chain_b s) 0 (length s) 0 (length s) = (0, 0, length s)"
proof -
  let ?n = "length s"
  let ?rows = "match_rows s (chain_b s) 0 ?n [0..<?n] ((\<lambda>j. 0), (0, 0, 0))"
  have "rows_inv s (chain_b s) 0 (\<lambda>j. 0) 0"
    by (simp add: rows_inv_def)
  then obtain d m where rows: "?rows = (d, d, m)"
    using match_rows_diagonal [of "chain_b s" s 0 "\<lambda>j. 0" 0 0] chain_b_cases by auto
  have "best_ok 0 ?n 0 ?n ?rows"
    by (intro match_rows_ok) (simp_all add: row_ok_zero best_ok_def)
  then have fits: "m + d \<le> ?n"
    unfolding rows by (cases "m = 0") (auto simp: best_ok_def)
  have ok: "\<forall>c. \<not> isbjunk c"
    by (simp add: isbjunk_def)
  have "extend_back s s (\<lambda>elt. \<not> isbjunk elt) 0 0 ?rows = (0, 0, m + d)"
    unfolding rows using ok by (intro extend_back_diagonal) simp
  moreover have "extend_forward s s (\<lambda>elt. \<not> isbjunk elt) ?n ?n (0, 0, m + d) = (0, 0, ?n)"
    using ok fits by (intro extend_forward_diagonal) simp_all
  ultimately show ?thesis
    by (simp add: find_longest_match_def Let_def extend_back_at_corner extend_forward_at_end)
qed

lemma matches_total_self: "matches_total s s = length s"
  unfolding matches_total_window
  by (subst window_total_unfold [OF find_longest_match_self]) (simp add: pushed_def)

lemma ratio_self: "ratio s s = 1"
  by (simp add: ratio_def matches_total_self calculate_ratio_full)

lemma real_quick_ratio_self: "real_quick_ratio s s = 1"
  by (simp add: real_quick_ratio_def Let_def calculate_ratio_full)

lemma fullbcount_of_count:
  "fullbcount_of b fullbcount c = fullbcount c + int (count_list b c)"
  by (induction b arbitrary: fullbcount) auto

lemma quick_matches_all:
  assumes "\<forall>c. int (count_list a c) \<le> (case avail c of Some n \<Rightarrow> n | None \<Rightarrow> fullbcount c)"
  shows "quick_matches a fullbcount avail matches = matches + length a"
  using assms
proof (induction a arbitrary: avail matches)
  case Nil
  show ?case by simp
next
  case (Cons elt rest)
  define numb where "numb = (case avail elt of Some n \<Rightarrow> n | None \<Rightarrow> fullbcount elt)"
  have "int (count_list (elt # rest) elt) \<le> numb"
    using Cons.prems unfolding numb_def by blast
  then have pos: "numb > 0" and left: "int (count_list rest elt) \<le> numb - 1"
    by simp_all
  have "\<forall>c. int (count_list rest c)
      \<le> (case (avail(elt \<mapsto> numb - 1)) c of Some n \<Rightarrow> n | None \<Rightarrow> fullbcount c)"
  proof
    fix c
    show "int (count_list rest c)
        \<le> (case (avail(elt \<mapsto> numb - 1)) c of Some n \<Rightarrow> n | None \<Rightarrow> fullbcount c)"
    proof (cases "c = elt")
      case True
      with left show ?thesis by simp
    next
      case False
      with Cons.prems [rule_format, of c] show ?thesis by simp
    qed
  qed
  then have "quick_matches rest fullbcount (avail(elt \<mapsto> numb - 1)) (matches + 1)
      = matches + 1 + length rest"
    by (rule Cons.IH)
  with pos show ?case
    by (simp add: numb_def [symmetric] Let_def)
qed

lemma quick_ratio_self: "quick_ratio s s = 1"
proof -
  have "quick_matches s (fullbcount_of s (\<lambda>elt. 0)) Map.empty 0 = 0 + length s"
    by (rule quick_matches_all) (simp add: fullbcount_of_count)
  then show ?thesis
    by (simp add: quick_ratio_def calculate_ratio_full)
qed


subsection \<open>The best candidate\<close>

lemma close_candidates_set:
  "set (close_candidates word cutoff possibilities result) =
     set result \<union> {(ratio x word, x) | x. x \<in> set possibilities
        \<and> real_quick_ratio x word \<ge> cutoff \<and> quick_ratio x word \<ge> cutoff
        \<and> ratio x word \<ge> cutoff}"
proof (induction possibilities arbitrary: result)
  case Nil
  show ?case by simp
next
  case (Cons x possibilities)
  show ?case
    unfolding close_candidates.simps Cons.IH by auto
qed

lemma sorted_last_greatest:
  assumes "sorted xs" and "m \<in> set xs" and "\<forall>x \<in> set xs. x \<le> m"
  shows "last xs = m"
proof -
  from assms(2) have ne: "xs \<noteq> []" by auto
  then have "last xs \<in> set xs" by simp
  with assms(3) have "last xs \<le> m" by blast
  moreover have "m \<le> last xs"
  proof -
    from assms(2) obtain i where i: "i < length xs" "xs ! i = m"
      by (auto simp: in_set_conv_nth)
    then have "xs ! i \<le> xs ! (length xs - 1)"
      using assms(1) by (intro sorted_nth_mono) auto
    with i ne show ?thesis by (simp add: last_conv_nth)
  qed
  ultimately show ?thesis by simp
qed

lemma nlargest_head:
  assumes "m \<in> set result" and "\<forall>x \<in> set result. x \<le> m"
  shows "\<exists>others. nlargest 3 result = m # others"
proof -
  let ?ys = "sort result"
  have "last ?ys = m"
    using assms by (intro sorted_last_greatest) simp_all
  moreover have "m \<in> set ?ys"
    using assms(1) by simp
  then have "?ys \<noteq> []"
    by (cases ?ys) simp_all
  ultimately have r: "rev ?ys = m # rev (butlast ?ys)"
    by (metis append_butlast_last_id rev.simps(2) rev_rev_ident rev_singleton_conv rev_append append_Cons append_Nil)
  have "take 3 (m # rev (butlast ?ys)) = m # take (Suc (Suc 0)) (rev (butlast ?ys))"
    by (simp add: numeral_3_eq_3)
  then show ?thesis
    unfolding nlargest_def r by blast
qed

lemma get_close_matches_exact:
  assumes "k \<in> set possibilities" and "0 \<le> cutoff" and "cutoff \<le> 1"
  shows "\<exists>others. get_close_matches k possibilities 3 cutoff = Inr (k # others)"
proof -
  let ?result = "close_candidates k cutoff possibilities []"
  have "(1, k) \<in> set ?result"
    using assms(1,3) unfolding close_candidates_set
    by (auto simp: ratio_self quick_ratio_self real_quick_ratio_self intro!: exI [of _ k])
  moreover have "\<forall>p \<in> set ?result. p \<le> (1, k)"
  proof
    fix p assume "p \<in> set ?result"
    then obtain x where p: "p = (ratio x k, x)"
      unfolding close_candidates_set by auto
    show "p \<le> (1, k)"
    proof (cases "ratio x k = 1")
      case True
      then have "x = k" by (rule ratio_one_equal)
      with True p show ?thesis by simp
    next
      case False
      with ratio_le_one [of x k] have "ratio x k < 1" by simp
      with p show ?thesis by (simp add: less_eq_prod_def)
    qed
  qed
  ultimately obtain others where "nlargest 3 ?result = (1, k) # others"
    using nlargest_head by blast
  then show ?thesis
    using assms(2,3) by (simp add: get_close_matches_def)
qed

text \<open>
  Claim C5, as amended. For every key \<open>k\<close> of the knowledge base that is its own
  normalization and every cutoff between 0 and 1, \<open>find_best_local_answer(k, kb, cutoff)\<close>
  returns the key \<open>k\<close>, the answer stored under it and the score 1.
\<close>

theorem exact_key_found:
  assumes "k \<in> fst ` set kb" and "normalize_text k = k" and "0 \<le> cutoff" and "cutoff \<le> 1"
  shows "\<exists>answer. map_of kb k = Some answer
     \<and> find_best_local_answer k kb cutoff = Inr (Some k, Some answer, 1)"
proof -
  from assms(1) have "k \<in> set (map fst kb)"
    by simp
  then obtain others where "get_close_matches k (map fst kb) 3 cutoff = Inr (k # others)"
    using get_close_matches_exact [OF _ assms(3,4)] by blast
  then have "find_best_local_answer k kb cutoff = kb_item kb k (ratio k k)"
    using assms(2) by (simp add: find_best_local_answer_def Let_def)
  also have "\<dots> = Inr (Some k, map_of kb k, 1)"
    using kb_item_key(1) [OF assms(1)] by (simp add: ratio_self)
  finally show ?thesis
    using kb_item_key(2) [OF assms(1)] by auto
qed

lemma python_key:
  "''what is python'' \<in> fst ` set QA_KB"
  "normalize_text ''what is python'' = ''what is python''"
  "map_of QA_KB ''what is python''
   = Some ''Python is a high-level, interpreted programming language known for its readability and large ecosystem.''"
  by code_simp+

theorem exact_key_found_witness:
  "find_best_local_answer ''what is python'' QA_KB (6 / 10) =
     Inr (Some ''what is python'',
          Some ''Python is a high-level, interpreted programming language known for its readability and large ecosystem.'',
          1)"
proof -
  have "(0 :: rat) \<le> 6 / 10" and "(6 :: rat) / 10 \<le> 1"
    by simp_all
  from exact_key_found [OF python_key(1,2) this] show ?thesis
    unfolding python_key(3) by simp
qed

text \<open>
  Claim C5 as stated fails for a cutoff below 0, which is a cutoff of at most 1:
  \<open>get_close_matches\<close> raises \<open>ValueError\<close> and nothing is returned.
\<close>

theorem negative_cutoff_raises:
  "''what is python'' \<in> fst ` set QA_KB
   \<and> normalize_text ''what is python'' = ''what is python''
   \<and> (- 1 :: rat) \<le> 1
   \<and> find_best_local_answer ''what is python'' QA_KB (- 1) = Inl ValueError"
  using python_key(1,2) by (simp add: find_best_local_answer_def get_close_matches_def)

end
